theory Spec2Isabelle
  imports Main "HOL-Library.Sublist" "HOL-Library.List_Lexorder" "HOL-Library.Char_ord"
    "HOL-Library.Product_Lexorder" "HOL-Library.Multiset"
begin

section \<open>Text: the string operations the tasks rely on\<close>

text \<open>
  Titles, identifiers and duration encodings are Python \<open>str\<close> values. They are modelled
  as \<^typ>\<open>string\<close>, one \<^typ>\<open>char\<close> per code point, so the repertoire is the first 256
  code points (ASCII and the Latin-1 letters, which cover the accented capitals in the
  literals of the source). Comparison of strings is the lexicographic order on code points, as
  Python's \<open><\<close> on \<open>str\<close>.
\<close>

definition lower_char :: "char \<Rightarrow> char" where
  "lower_char c =
     (let n = (of_char c :: nat)
      in if (65 \<le> n \<and> n \<le> 90) \<or> (192 \<le> n \<and> n \<le> 222 \<and> n \<noteq> 215)
         then char_of (n + 32) else c)"

text \<open>\<open>str.lower()\<close>: every cased letter of the repertoire goes to its lower-case form.\<close>

definition lower :: "string \<Rightarrow> string" where
  "lower s = map lower_char s"

subsection \<open>The title tag of the scheduling task\<close>

text \<open>
  \<^verbatim>\<open>new_title = title if "#biblia" in title.lower() else f"{title} #biblia"\<close>
  (\<open>FullAutomationTask.execute\<close>). Python's \<open>in\<close> on strings is the test for a
  contiguous occurrence, \<^const>\<open>sublist\<close>.
\<close>

definition new_title :: "string \<Rightarrow> string" where
  "new_title title =
     (if sublist ''#biblia'' (lower title) then title else title @ '' #biblia'')"

subsection \<open>Searching a number followed by a unit letter\<close>

text \<open>
  \<^verbatim>\<open>re.search(r"(\d+)M", duration_str)\<close> and its sibling for \<open>S\<close>. The search tries
  every start position from the left. At one position, \<open>\d+\<close> is greedy: it takes the
  whole run of digits, and the unit letter must follow. Giving digits back cannot help,
  because the character after a shorter run is a digit and not the letter. In the
  repertoire above \<open>\d\<close> is \<open>0\<close> to \<open>9\<close>.
\<close>

definition is_digit :: "char \<Rightarrow> bool" where
  "is_digit c = (let n = (of_char c :: nat) in 48 \<le> n \<and> n \<le> 57)"

text \<open>The match of \<open>(\d+)c\<close> anchored at the head of the text: group 1, if any.\<close>

definition match_number_unit :: "char \<Rightarrow> string \<Rightarrow> string option" where
  "match_number_unit c s =
     (let ds = takeWhile is_digit s; rest = dropWhile is_digit s
      in if ds \<noteq> [] \<and> rest \<noteq> [] \<and> hd rest = c then Some ds else None)"

fun search_number_unit :: "char \<Rightarrow> string \<Rightarrow> string option" where
  "search_number_unit c [] = None"
| "search_number_unit c (x # xs) =
     (case match_number_unit c (x # xs) of
        Some g \<Rightarrow> Some g
      | None \<Rightarrow> search_number_unit c xs)"

text \<open>\<open>int(...)\<close> on a run of decimal digits.\<close>

definition digit_value :: "char \<Rightarrow> int" where
  "digit_value c = int (of_char c) - 48"

definition py_int :: "string \<Rightarrow> int" where
  "py_int ds = foldl (\<lambda>a d. 10 * a + digit_value d) 0 ds"

subsection \<open>The duration check of the public-shorts task\<close>

text \<open>
  \<open>AddPublicShortsExtendedTask._check_duration\<close>. The local \<open>total_seconds\<close> of the
  source, after both updates, is \<open>total_seconds\<close> here.
\<close>

definition total_seconds :: "string \<Rightarrow> int" where
  "total_seconds duration_str =
     (let minutes = search_number_unit (CHR ''M'') duration_str;
          seconds = search_number_unit (CHR ''S'') duration_str;
          total = 0;
          total = (case minutes of Some g \<Rightarrow> total + py_int g * 60 | None \<Rightarrow> total);
          total = (case seconds of Some g \<Rightarrow> total + py_int g | None \<Rightarrow> total)
      in total)"

definition check_duration :: "string \<Rightarrow> int \<Rightarrow> bool" where
  "check_duration duration_str max_seconds =
     (if CHR ''H'' \<in> set duration_str then False
      else 0 < total_seconds duration_str \<and> total_seconds duration_str \<le> max_seconds)"


subsection \<open>The chapter number in a title\<close>

text \<open>
  \<open>str.upper()\<close> on the repertoire: a cased letter goes to its capital, and the sharp s
  (code point 223) to \<open>SS\<close>. The capitals of code points 181 and 255 lie outside the
  repertoire; the model leaves these two letters as they are.
\<close>

definition upper_char :: "char \<Rightarrow> string" where
  "upper_char c =
     (let n = (of_char c :: nat)
      in if (97 \<le> n \<and> n \<le> 122) \<or> (224 \<le> n \<and> n \<le> 254 \<and> n \<noteq> 247)
         then [char_of (n - 32)]
         else if n = 223 then ''SS'' else [c])"

definition upper :: "string \<Rightarrow> string" where
  "upper s = concat (map upper_char s)"

text \<open>\<open>\s\<close> on \<open>str\<close>: the white space of the repertoire.\<close>

definition is_space :: "char \<Rightarrow> bool" where
  "is_space c =
     (let n = (of_char c :: nat)
      in (9 \<le> n \<and> n \<le> 13) \<or> (28 \<le> n \<and> n \<le> 32) \<or> n = 133 \<or> n = 160)"

text \<open>
  The word \<open>CAPITULO\<close> of the two patterns, with its accented I (code point 205), and
  the marker \<open>GENESIS - CAPITULO\<close> with its accented E (code point 201).
\<close>

definition CAPITULO :: string where
  "CAPITULO = ''CAP'' @ [CHR 0xCD] @ ''TULO''"

definition GENESIS_CAPITULO :: string where
  "GENESIS_CAPITULO = ''G'' @ [CHR 0xC9] @ ''NESIS - '' @ CAPITULO"

text \<open>
  \<^verbatim>\<open>re.search(r"CAPITULO\s+(\d+)", title)\<close>, and with \<open>re.IGNORECASE\<close> the search on
  the raw title, where a character matches the pattern's when both have the same
  lower-case form. After the word, \<open>\s+\<close> takes the whole run of white space and
  \<open>\d+\<close> the whole run of digits; neither gains from giving characters back.
\<close>

definition same_char :: "bool \<Rightarrow> char \<Rightarrow> char \<Rightarrow> bool" where
  "same_char ignorecase p c = (if ignorecase then lower_char p = lower_char c else p = c)"

definition match_chapter :: "bool \<Rightarrow> string \<Rightarrow> string option" where
  "match_chapter ignorecase s =
     (let n = length CAPITULO;
          rest = drop n s;
          digits = takeWhile is_digit (dropWhile is_space rest)
      in if length s \<ge> n \<and> list_all2 (same_char ignorecase) CAPITULO (take n s)
            \<and> takeWhile is_space rest \<noteq> [] \<and> digits \<noteq> []
         then Some digits else None)"

fun search_chapter :: "bool \<Rightarrow> string \<Rightarrow> string option" where
  "search_chapter ignorecase [] = None"
| "search_chapter ignorecase (x # xs) =
     (case match_chapter ignorecase (x # xs) of
        Some g \<Rightarrow> Some g
      | None \<Rightarrow> search_chapter ignorecase xs)"

section \<open>The slot calendar\<close>

text \<open>
  A \<open>datetime\<close> is its date, as the proleptic Gregorian day number of
  \<open>date.toordinal()\<close>, and its time of day. The last day is 9999-12-31, day number
  \<open>max_ordinal\<close>. Python compares two naive \<open>datetime\<close> values field by field, the
  date first.
\<close>

record datetime =
  ordinal :: nat
  hour :: nat
  minute :: nat
  second :: nat
  microsecond :: nat

definition dt_fields :: "datetime \<Rightarrow> nat \<times> nat \<times> nat \<times> nat \<times> nat" where
  "dt_fields d = (ordinal d, hour d, minute d, second d, microsecond d)"

definition dt_less :: "datetime \<Rightarrow> datetime \<Rightarrow> bool" where
  "dt_less a b = (dt_fields a < dt_fields b)"

definition dt_le :: "datetime \<Rightarrow> datetime \<Rightarrow> bool" where
  "dt_le a b = (dt_fields a \<le> dt_fields b)"

text \<open>\<open>date.weekday()\<close>: Monday is 0; day number 1 is a Monday.\<close>

definition weekday :: "datetime \<Rightarrow> nat" where
  "weekday d = (ordinal d + 6) mod 7"

datatype error = ValueError | HttpError | TypeError | IndexError | OverflowError

text \<open>
  \<open>current.replace(hour=hr, minute=mnt, second=0, microsecond=0)\<close> raises
  \<open>ValueError\<close> on an hour or a minute out of range.
\<close>

definition replace_time :: "datetime \<Rightarrow> nat \<Rightarrow> nat \<Rightarrow> error + datetime" where
  "replace_time d hr mnt =
     (if hr < 24 \<and> mnt < 60
      then Inr (d\<lparr>hour := hr, minute := mnt, second := 0, microsecond := 0\<rparr>)
      else Inl ValueError)"

definition max_ordinal :: nat where
  "max_ordinal = 3652059"

text \<open>
  \<open>current += timedelta(days=1); current = current.replace(hour=0, minute=0)\<close>.
  Adding a day to a date on the last day raises \<open>OverflowError\<close>.
\<close>

definition next_day :: "datetime \<Rightarrow> error + datetime" where
  "next_day d =
     (if ordinal d + 1 \<le> max_ordinal
      then Inr (d\<lparr>ordinal := ordinal d + 1, hour := 0, minute := 0\<rparr>)
      else Inl OverflowError)"

type_synonym slot = "nat \<times> nat \<times> nat"

definition slots :: "slot list" where
  "slots = [(0, 7, 30), (1, 13, 0), (2, 13, 0), (3, 13, 0), (4, 19, 0), (5, 10, 0), (6, 20, 0)]"

text \<open>
  Every \<open>datetime.now()\<close> reads the system clock anew. A run sees the clock as the
  sequence of its readings: \<open>clock n\<close> is what the \<open>n\<close>-th call returns, and the count
  of calls made so far is threaded through the loop.

  The inner \<open>for\<close> loop over the template, for one day. The clock is read for every
  entry of that weekday, before the length of \<open>dates\<close> is compared. The source appends
  the \<open>strftime\<close> rendering of \<open>possible\<close>; the model keeps the instant itself.
\<close>

fun scan_slots ::
  "(nat \<Rightarrow> datetime) \<Rightarrow> int \<Rightarrow> datetime \<Rightarrow> slot list \<Rightarrow> datetime list \<Rightarrow> nat
     \<Rightarrow> error + datetime list \<times> nat" where
  "scan_slots clock quantity current [] dates reads = Inr (dates, reads)"
| "scan_slots clock quantity current ((s_day, hr, mnt) # rest) dates reads =
     (if weekday current = s_day then
        (case replace_time current hr mnt of
           Inl e \<Rightarrow> Inl e
         | Inr possible \<Rightarrow>
             if dt_less (clock reads) possible \<and> int (length dates) < quantity
             then scan_slots clock quantity current rest (dates @ [possible]) (Suc reads)
             else scan_slots clock quantity current rest dates (Suc reads))
      else scan_slots clock quantity current rest dates reads)"

text \<open>
  The \<open>while\<close> loop, as a function that may not return (\<open>None\<close>). The day is
  advanced at the end of every turn, also of the last one.
\<close>

partial_function (option) schedule_loop ::
  "(nat \<Rightarrow> datetime) \<Rightarrow> slot list \<Rightarrow> int \<Rightarrow> datetime \<Rightarrow> datetime list \<Rightarrow> nat
     \<Rightarrow> (error + datetime list) option" where
  "schedule_loop clock template quantity current dates reads =
     (if int (length dates) < quantity then
        (case scan_slots clock quantity current template dates reads of
           Inl e \<Rightarrow> Some (Inl e)
         | Inr (dates', reads') \<Rightarrow>
             (case next_day current of
                Inl e \<Rightarrow> Some (Inl e)
              | Inr current' \<Rightarrow>
                  schedule_loop clock template quantity current' dates' reads'))
      else Some (Inr dates))"

declare schedule_loop.simps [code]

text \<open>
  The generator over a given template; \<open>current = datetime.now()\<close> is the first reading
  of the clock.
\<close>

definition generate_from ::
  "slot list \<Rightarrow> (nat \<Rightarrow> datetime) \<Rightarrow> int \<Rightarrow> (error + datetime list) option" where
  "generate_from template clock quantity =
     schedule_loop clock template quantity (clock 0) [] 1"

text \<open>\<open>CalendarStrategy.generate_schedule\<close>, whose template is the constant \<open>slots\<close>.\<close>

definition generate_schedule :: "(nat \<Rightarrow> datetime) \<Rightarrow> int \<Rightarrow> (error + datetime list) option" where
  "generate_schedule clock quantity = generate_from slots clock quantity"


section \<open>The remote platform\<close>

text \<open>
  The tasks talk to the platform through \<open>YouTubeAPI\<close>. The platform is not part of
  the repository; it is modelled as a state with the resources the tasks read and write,
  and with the list of requests sent so far. What is assumed of it:
  \<^item> a \<open>playlistItems().list\<close> request with \<open>maxResults = n\<close> answers with one page,
    the first \<open>n\<close> rows of the playlist at most;
  \<^item> an insertion appends a row with a fresh identifier, whether or not the video is
    already in the playlist (the platform does not enforce uniqueness);
  \<^item> any request may be refused (quota, network, a resource that is gone): the client
    library then raises \<open>HttpError\<close>. Whether the \<open>n\<close>-th request of the run is refused
    is given by \<open>refuses\<close>, so that every pattern of failures is covered.
  Resources are records with the fields the tasks use; identifiers of playlist rows are
  numbers, as they are opaque.
\<close>

type_synonym video_id = string
type_synonym playlist_id = string

record playlist_item =
  item_id :: nat
  snippet_title :: string
  snippet_videoId :: video_id

record video =
  video_title :: string
  video_description :: string
  video_categoryId :: string
  video_privacyStatus :: string
  video_publishAt :: "datetime option"
  video_madeForKids :: bool
  video_duration :: "string option"
  video_relatedVideoId :: "video_id option"

text \<open>The \<open>body\<close> of a \<open>videos().update\<close> request, as the scheduling task builds it.\<close>

record body =
  body_id :: video_id
  body_title :: string
  body_description :: string
  body_categoryId :: string
  body_privacyStatus :: string
  body_publishAt :: datetime
  body_selfDeclaredMadeForKids :: bool
  body_relatedVideoId :: "video_id option"

datatype call =
    ChannelsList
  | PlaylistItemsList playlist_id nat
  | VideosList video_id
  | VideosUpdate body
  | PlaylistItemsInsert playlist_id video_id
  | PlaylistItemsDelete nat

record remote =
  channel_uploads :: "playlist_id list"
  playlists :: "playlist_id \<Rightarrow> playlist_item list"
  videos :: "video_id \<Rightarrow> video option"
  refuses :: "nat \<Rightarrow> call \<Rightarrow> bool"
  issued :: "call list"
  next_item_id :: nat

text \<open>
  A computation against the platform returns a value or the exception raised, and the
  platform's state after it.
\<close>

type_synonym 'a api = "remote \<Rightarrow> (error + 'a) \<times> remote"

definition and_then :: "'a api \<Rightarrow> ('a \<Rightarrow> 'b api) \<Rightarrow> 'b api" where
  "and_then m f w = (case m w of (Inl e, w') \<Rightarrow> (Inl e, w') | (Inr x, w') \<Rightarrow> f x w')"

text \<open>Sending a request: it is recorded, and it is accepted or refused.\<close>

definition send :: "call \<Rightarrow> unit api" where
  "send c w =
     (let w' = w\<lparr>issued := issued w @ [c]\<rparr>
      in if refuses w (length (issued w)) c then (Inl HttpError, w') else (Inr (), w'))"

subsection \<open>The requests of the service\<close>

definition playlistItems_list :: "playlist_id \<Rightarrow> nat \<Rightarrow> playlist_item list api" where
  "playlistItems_list playlistId maxResults =
     and_then (send (PlaylistItemsList playlistId maxResults))
       (\<lambda>_ w. (Inr (take maxResults (playlists w playlistId)), w))"

definition videos_list :: "video_id \<Rightarrow> video list api" where
  "videos_list video_id =
     and_then (send (VideosList video_id))
       (\<lambda>_ w. (Inr (case videos w video_id of None \<Rightarrow> [] | Some v \<Rightarrow> [v]), w))"

definition apply_body :: "body \<Rightarrow> video \<Rightarrow> video" where
  "apply_body b v =
     v\<lparr>video_title := body_title b,
       video_description := body_description b,
       video_categoryId := body_categoryId b,
       video_privacyStatus := body_privacyStatus b,
       video_publishAt := Some (body_publishAt b),
       video_madeForKids := body_selfDeclaredMadeForKids b,
       video_relatedVideoId :=
         (case body_relatedVideoId b of None \<Rightarrow> video_relatedVideoId v | Some r \<Rightarrow> Some r)\<rparr>"

definition videos_update_req :: "body \<Rightarrow> unit api" where
  "videos_update_req b =
     and_then (send (VideosUpdate b))
       (\<lambda>_ w. case videos w (body_id b) of
                None \<Rightarrow> (Inl HttpError, w)
              | Some v \<Rightarrow> (Inr (), w\<lparr>videos := (videos w)(body_id b \<mapsto> apply_body b v)\<rparr>))"

definition playlistItems_insert :: "playlist_id \<Rightarrow> video_id \<Rightarrow> unit api" where
  "playlistItems_insert playlistId video_id =
     and_then (send (PlaylistItemsInsert playlistId video_id))
       (\<lambda>_ w. case videos w video_id of
                None \<Rightarrow> (Inl HttpError, w)
              | Some v \<Rightarrow>
                  (Inr (),
                   w\<lparr>playlists := (playlists w)
                        (playlistId := playlists w playlistId @
                           [\<lparr>item_id = next_item_id w, snippet_title = video_title v,
                             snippet_videoId = video_id\<rparr>]),
                     next_item_id := Suc (next_item_id w)\<rparr>))"

definition playlistItems_delete :: "nat \<Rightarrow> unit api" where
  "playlistItems_delete i =
     and_then (send (PlaylistItemsDelete i))
       (\<lambda>_ w. (Inr (), w\<lparr>playlists := (\<lambda>p. filter (\<lambda>r. item_id r \<noteq> i) (playlists w p))\<rparr>))"

subsection \<open>\<open>YouTubeAPI\<close>\<close>

text \<open>\<open>res["items"][0]\<close> raises \<open>IndexError\<close> when the account has no channel.\<close>

definition get_uploads_playlist_id :: "playlist_id api" where
  "get_uploads_playlist_id =
     and_then (send ChannelsList)
       (\<lambda>_ w. case channel_uploads w of [] \<Rightarrow> (Inl IndexError, w) | u # _ \<Rightarrow> (Inr u, w))"

definition fetch_videos :: "playlist_id \<Rightarrow> playlist_item list api" where
  "fetch_videos playlist_id = playlistItems_list playlist_id 100"

text \<open>\<open>return res["items"][0] if res["items"] else None\<close>\<close>

definition get_full_video_data :: "video_id \<Rightarrow> video option api" where
  "get_full_video_data video_id =
     and_then (videos_list video_id)
       (\<lambda>items w. (Inr (case items of [] \<Rightarrow> None | v # _ \<Rightarrow> Some v), w))"

definition update_video_content :: "body \<Rightarrow> unit api" where
  "update_video_content b = videos_update_req b"

definition fetch_playlist_items :: "playlist_id \<Rightarrow> video_id list api" where
  "fetch_playlist_items playlist_id =
     and_then (playlistItems_list playlist_id 100)
       (\<lambda>items w. (Inr (map snippet_videoId items), w))"

definition add_to_playlist :: "video_id \<Rightarrow> playlist_id \<Rightarrow> unit api" where
  "add_to_playlist video_id target_playlist_id =
     playlistItems_insert target_playlist_id video_id"


section \<open>The tasks\<close>

subsection \<open>\<open>ListPrivateVideosTask\<close>\<close>

record private_video =
  pv_title :: string
  pv_id :: video_id
  pv_details :: video

text \<open>
  The filtering loop. \<open>details["status"]\<close> on the \<open>None\<close> that
  \<open>get_full_video_data\<close> returns for a video the platform does not know raises
  \<open>TypeError\<close>; the loop has no handler, so this and a refused request end the task.
\<close>

fun filter_private :: "playlist_item list \<Rightarrow> private_video list \<Rightarrow> private_video list api" where
  "filter_private [] private_videos w = (Inr private_videos, w)"
| "filter_private (item # items) private_videos w =
     (let v_id = snippet_videoId item
      in case get_full_video_data v_id w of
           (Inl e, w') \<Rightarrow> (Inl e, w')
         | (Inr None, w') \<Rightarrow> (Inl TypeError, w')
         | (Inr (Some details), w') \<Rightarrow>
             if video_privacyStatus details = ''private''
             then filter_private items
                    (private_videos @
                       [\<lparr>pv_title = video_title details, pv_id = v_id, pv_details = details\<rparr>]) w'
             else filter_private items private_videos w')"

text \<open>
  \<open>private_videos.sort(key=lambda x: x["title"])\<close>: a stable sort on the title, as
  \<^const>\<open>sort_key\<close> is.
\<close>

definition sort_private :: "private_video list \<Rightarrow> private_video list" where
  "sort_private private_videos = sort_key pv_title private_videos"

definition list_private_execute :: "private_video list api" where
  "list_private_execute =
     and_then get_uploads_playlist_id (\<lambda>uploads_id.
     and_then (fetch_videos uploads_id) (\<lambda>items.
     and_then (filter_private items []) (\<lambda>private_videos w.
       (Inr (sort_private private_videos), w))))"

subsection \<open>\<open>FullAutomationTask\<close>\<close>

text \<open>The reference map: chapter number, as the matched text, to video.\<close>

fun build_ref_map ::
  "playlist_item list \<Rightarrow> (string \<Rightarrow> video_id option) \<Rightarrow> (string \<Rightarrow> video_id option)" where
  "build_ref_map [] ref_map = ref_map"
| "build_ref_map (item # all_items) ref_map =
     (let title = upper (snippet_title item);
          v_id = snippet_videoId item
      in if sublist GENESIS_CAPITULO title then
           (case search_chapter False title of
              Some g \<Rightarrow> build_ref_map all_items (ref_map(g \<mapsto> v_id))
            | None \<Rightarrow> build_ref_map all_items ref_map)
         else build_ref_map all_items ref_map)"

text \<open>
  The body for one video. \<open>if related_id:\<close> is false for \<open>None\<close> and for the empty
  string.
\<close>

definition make_body ::
  "string \<Rightarrow> (string \<Rightarrow> video_id option) \<Rightarrow> private_video \<Rightarrow> datetime \<Rightarrow> body" where
  "make_body description ref_map vid_info publish_date =
     (let title = pv_title vid_info;
          v_id = pv_id vid_info;
          related_id = (case search_chapter True title of Some g \<Rightarrow> ref_map g | None \<Rightarrow> None)
      in \<lparr>body_id = v_id,
          body_title = new_title title,
          body_description = description,
          body_categoryId = ''22'',
          body_privacyStatus = ''private'',
          body_publishAt = publish_date,
          body_selfDeclaredMadeForKids = False,
          body_relatedVideoId =
            (case related_id of None \<Rightarrow> None | Some r \<Rightarrow> if r = [] then None else Some r)\<rparr>)"

text \<open>
  One turn of the final loop. The \<open>try\<close> block holds the update and the insertion, and
  \<open>except Exception\<close> swallows what either raises: a failed update skips the insertion.
\<close>

definition program_video ::
  "playlist_id \<Rightarrow> string \<Rightarrow> video_id list \<Rightarrow> (string \<Rightarrow> video_id option)
     \<Rightarrow> private_video \<times> datetime \<Rightarrow> remote \<Rightarrow> remote" where
  "program_video target_playlist description videos_ya_en_playlist ref_map pair w =
     (let vid_info = fst pair;
          publish_date = snd pair;
          v_id = pv_id vid_info;
          b = make_body description ref_map vid_info publish_date
      in case update_video_content b w of
           (Inl e, w') \<Rightarrow> w'
         | (Inr _, w') \<Rightarrow>
             if v_id \<notin> set videos_ya_en_playlist
             then snd (add_to_playlist v_id target_playlist w')
             else w')"

fun program_all ::
  "playlist_id \<Rightarrow> string \<Rightarrow> video_id list \<Rightarrow> (string \<Rightarrow> video_id option)
     \<Rightarrow> (private_video \<times> datetime) list \<Rightarrow> remote \<Rightarrow> remote" where
  "program_all target_playlist description videos_ya_en_playlist ref_map [] w = w"
| "program_all target_playlist description videos_ya_en_playlist ref_map (pair # pairs) w =
     program_all target_playlist description videos_ya_en_playlist ref_map pairs
       (program_video target_playlist description videos_ya_en_playlist ref_map pair w)"

text \<open>
  The reads that follow the search for private videos, up to the call of the calendar.
\<close>

definition schedule_reads ::
  "playlist_id \<Rightarrow> (video_id list \<times> (string \<Rightarrow> video_id option)) api" where
  "schedule_reads target_playlist =
     and_then (fetch_playlist_items target_playlist) (\<lambda>videos_ya_en_playlist.
     and_then get_uploads_playlist_id (\<lambda>uploads_id.
     and_then (fetch_videos uploads_id) (\<lambda>all_items w.
       (Inr (videos_ya_en_playlist, build_ref_map all_items Map.empty), w))))"

text \<open>
  \<open>FullAutomationTask(target_playlist, description).execute\<close>, under a clock. The result
  is \<open>None\<close> when the run does not return; otherwise the exception that ended it, if
  any, and the platform's state.
\<close>

definition full_automation_execute ::
  "playlist_id \<Rightarrow> string \<Rightarrow> (nat \<Rightarrow> datetime) \<Rightarrow> remote \<Rightarrow> ((error + unit) \<times> remote) option" where
  "full_automation_execute target_playlist description clock w =
     (case list_private_execute w of
        (Inl e, w1) \<Rightarrow> Some (Inl e, w1)
      | (Inr to_program_data, w1) \<Rightarrow>
          if to_program_data = [] then Some (Inr (), w1)
          else
            (case schedule_reads target_playlist w1 of
               (Inl e, w2) \<Rightarrow> Some (Inl e, w2)
             | (Inr (videos_ya_en_playlist, ref_map), w2) \<Rightarrow>
                 (case generate_schedule clock (int (length to_program_data)) of
                    None \<Rightarrow> None
                  | Some (Inl e) \<Rightarrow> Some (Inl e, w2)
                  | Some (Inr dates) \<Rightarrow>
                      Some (Inr (),
                        program_all target_playlist description videos_ya_en_playlist ref_map
                          (zip to_program_data dates) w2))))"

subsection \<open>\<open>ClearPlaylistTask\<close>\<close>

text \<open>Each deletion has its own \<open>try\<close>: a refused one is passed over.\<close>

fun delete_all :: "playlist_item list \<Rightarrow> remote \<Rightarrow> remote" where
  "delete_all [] w = w"
| "delete_all (item # items) w = delete_all items (snd (playlistItems_delete (item_id item) w))"

definition clear_playlist_execute :: "playlist_id \<Rightarrow> unit api" where
  "clear_playlist_execute playlist_id =
     and_then (playlistItems_list playlist_id 100) (\<lambda>items w.
       if items = [] then (Inr (), w) else (Inr (), delete_all items w))"

subsection \<open>\<open>AddPublicShortsExtendedTask\<close>\<close>

record selected_video =
  sv_title :: string
  sv_id :: video_id

text \<open>
  The selection loop; \<open>details["contentDetails"].get("duration", "")\<close> is the empty
  string when the duration is absent. As in the search for private videos, the detail
  request has no handler.
\<close>

fun select_shorts :: "playlist_item list \<Rightarrow> selected_video list \<Rightarrow> selected_video list api" where
  "select_shorts [] videos_seleccionados w = (Inr videos_seleccionados, w)"
| "select_shorts (item # all_items) videos_seleccionados w =
     (let v_id = snippet_videoId item;
          title = snippet_title item
      in case get_full_video_data v_id w of
           (Inl e, w') \<Rightarrow> (Inl e, w')
         | (Inr None, w') \<Rightarrow> (Inl TypeError, w')
         | (Inr (Some details), w') \<Rightarrow>
             if video_privacyStatus details \<noteq> ''public''
             then select_shorts all_items videos_seleccionados w'
             else
               (let duration_iso = (case video_duration details of None \<Rightarrow> [] | Some d \<Rightarrow> d)
                in if check_duration duration_iso 120
                   then select_shorts all_items
                          (videos_seleccionados @ [\<lparr>sv_title = title, sv_id = v_id\<rparr>]) w'
                   else select_shorts all_items videos_seleccionados w'))"

text \<open>
  \<open>videos_seleccionados.sort(key=lambda x: x["title"].lower(), reverse=True)\<close>. With
  \<open>reverse=True\<close> Python's sort keeps the original order among equal keys: it
  reverses the list, sorts it stably and reverses the result.
\<close>

definition sort_shorts :: "selected_video list \<Rightarrow> selected_video list" where
  "sort_shorts videos_seleccionados =
     rev (sort_key (\<lambda>x. lower (sv_title x)) (rev videos_seleccionados))"

text \<open>The insertion loop, with the count of videos added.\<close>

fun insert_new :: "playlist_id \<Rightarrow> video_id list \<Rightarrow> selected_video list \<Rightarrow> nat \<Rightarrow> remote \<Rightarrow> nat \<times> remote" where
  "insert_new target_playlist videos_ya_en_playlist [] count' w = (count', w)"
| "insert_new target_playlist videos_ya_en_playlist (vid # vids) count' w =
     (if sv_id vid \<notin> set videos_ya_en_playlist then
        (case add_to_playlist (sv_id vid) target_playlist w of
           (Inr _, w') \<Rightarrow> insert_new target_playlist videos_ya_en_playlist vids (count' + 1) w'
         | (Inl e, w') \<Rightarrow> insert_new target_playlist videos_ya_en_playlist vids count' w')
      else insert_new target_playlist videos_ya_en_playlist vids count' w)"

definition add_public_shorts_execute :: "playlist_id \<Rightarrow> nat api" where
  "add_public_shorts_execute target_playlist =
     and_then (fetch_playlist_items target_playlist) (\<lambda>videos_ya_en_playlist.
     and_then get_uploads_playlist_id (\<lambda>uploads_id.
     and_then (fetch_videos uploads_id) (\<lambda>all_items.
     and_then (select_shorts all_items []) (\<lambda>videos_seleccionados w.
       (Inr (fst (insert_new target_playlist videos_ya_en_playlist
                   (sort_shorts videos_seleccionados) 0 w)),
        snd (insert_new target_playlist videos_ya_en_playlist
               (sort_shorts videos_seleccionados) 0 w))))))"


section \<open>Notions used to state the properties\<close>

text \<open>
  These are not part of the program. \<open>digits_of n\<close> is the decimal numeral of \<open>n\<close>,
  and \<open>encode_duration h m s\<close> the duration encoding \<open>PT#H#M#S\<close> in which each of the
  three components may be absent.
\<close>

fun digits_of :: "nat \<Rightarrow> string" where
  "digits_of n =
     (if n < 10 then [char_of (48 + n)]
      else digits_of (n div 10) @ [char_of (48 + n mod 10)])"

declare digits_of.simps [simp del]

definition component :: "nat option \<Rightarrow> char \<Rightarrow> string" where
  "component v u = (case v of None \<Rightarrow> [] | Some n \<Rightarrow> digits_of n @ [u])"

definition encode_duration :: "nat option \<Rightarrow> nat option \<Rightarrow> nat option \<Rightarrow> string" where
  "encode_duration h m s =
     ''PT'' @ component h (CHR ''H'') @ component m (CHR ''M'') @ component s (CHR ''S'')"

definition amount :: "nat option \<Rightarrow> int" where
  "amount v = (case v of None \<Rightarrow> 0 | Some n \<Rightarrow> int n)"

text \<open>
  What is assumed of the clock during one run: its readings never go back, and they all
  fall on or before some day \<open>D\<close>. \<open>wednesday_night\<close> is an instant for the examples,
  \<open>last_evening\<close> an instant of the last day, a Friday, after that day's slot, and
  \<open>back_clock\<close> a clock that is set back by a minute after its first reading.
\<close>

definition never_back :: "(nat \<Rightarrow> datetime) \<Rightarrow> bool" where
  "never_back clock = (\<forall>i j. i \<le> j \<longrightarrow> dt_le (clock i) (clock j))"

definition until_day :: "(nat \<Rightarrow> datetime) \<Rightarrow> nat \<Rightarrow> bool" where
  "until_day clock D = (\<forall>i. ordinal (clock i) \<le> D)"

definition wednesday_night :: datetime where
  "wednesday_night = \<lparr>ordinal = 739000, hour = 23, minute = 0, second = 12, microsecond = 345\<rparr>"

definition last_evening :: datetime where
  "last_evening = \<lparr>ordinal = 3652059, hour = 20, minute = 0, second = 0, microsecond = 0\<rparr>"

definition back_clock :: "nat \<Rightarrow> datetime" where
  "back_clock n =
     (if n = 0 then \<lparr>ordinal = 739000, hour = 13, minute = 0, second = 0, microsecond = 5\<rparr>
      else \<lparr>ordinal = 739000, hour = 12, minute = 59, second = 0, microsecond = 0\<rparr>)"

text \<open>The time of the constant template for each weekday, and that instant on a given day.\<close>

definition slot_time :: "nat \<Rightarrow> nat \<times> nat" where
  "slot_time wd = (if wd = 0 then (7, 30) else if wd = 1 \<or> wd = 2 \<or> wd = 3 then (13, 0)
     else if wd = 4 then (19, 0) else if wd = 5 then (10, 0) else (20, 0))"

definition slot_instant :: "datetime \<Rightarrow> datetime" where
  "slot_instant current = current\<lparr>hour := fst (slot_time (weekday current)),
      minute := snd (slot_time (weekday current)), second := 0, microsecond := 0\<rparr>"

text \<open>A video resource for the examples: title, privacy state and duration.\<close>

definition sample_video :: "string \<Rightarrow> string \<Rightarrow> string option \<Rightarrow> video" where
  "sample_video title privacy d =
     \<lparr>video_title = title, video_description = [], video_categoryId = ''22'',
      video_privacyStatus = privacy, video_publishAt = None, video_madeForKids = False,
      video_duration = d, video_relatedVideoId = None\<rparr>"

definition sample_private :: "string \<Rightarrow> video_id \<Rightarrow> private_video" where
  "sample_private title v_id =
     \<lparr>pv_title = title, pv_id = v_id, pv_details = sample_video title ''private'' None\<rparr>"

text \<open>
  A row of the uploads listing is a candidate short when its video is public and passes
  the duration check at 120 seconds; \<open>as_selected\<close> is the entry the task keeps for it.
  \<open>sample_remote\<close> is a small state of the platform for the examples: three uploads, of
  which \<open>b\<close> is already in the playlist \<open>PL\<close>.
\<close>

definition short_candidate :: "remote \<Rightarrow> playlist_item \<Rightarrow> bool" where
  "short_candidate w item =
     (case videos w (snippet_videoId item) of
        None \<Rightarrow> False
      | Some v \<Rightarrow> video_privacyStatus v = ''public''
          \<and> check_duration (case video_duration v of None \<Rightarrow> [] | Some d \<Rightarrow> d) 120)"

definition as_selected :: "playlist_item \<Rightarrow> selected_video" where
  "as_selected item = \<lparr>sv_title = snippet_title item, sv_id = snippet_videoId item\<rparr>"

definition sample_row :: "nat \<Rightarrow> string \<Rightarrow> video_id \<Rightarrow> playlist_item" where
  "sample_row i title v = \<lparr>item_id = i, snippet_title = title, snippet_videoId = v\<rparr>"

definition sample_remote :: remote where
  "sample_remote =
     \<lparr>channel_uploads = [''UU''],
      playlists = (\<lambda>p. if p = ''UU'' then [sample_row 1 ''Salmo 1'' ''a'', sample_row 2 ''Short b'' ''b'',
                                               sample_row 3 ''Long c'' ''c'']
                       else if p = ''PL'' then [sample_row 10 ''Short b'' ''b''] else []),
      videos = [''a'' \<mapsto> sample_video ''Salmo 1'' ''private'' (Some ''PT1M''),
                ''b'' \<mapsto> sample_video ''Short b'' ''public'' (Some ''PT45S''),
                ''c'' \<mapsto> sample_video ''Long c'' ''public'' (Some ''PT1H2M'')],
      refuses = (\<lambda>n c. False),
      issued = [],
      next_item_id = 100\<rparr>"

text \<open>
  The requests that read, and the relation between two states of the platform when only
  such requests were sent in between. \<open>list_private_requests\<close> are the requests of a
  search for private videos that ran to its end; \<open>no_private_remote\<close> is the sample
  state with no private video.
\<close>

fun is_read :: "call \<Rightarrow> bool" where
  "is_read ChannelsList = True"
| "is_read (PlaylistItemsList p n) = True"
| "is_read (VideosList v) = True"
| "is_read (VideosUpdate b) = False"
| "is_read (PlaylistItemsInsert p v) = False"
| "is_read (PlaylistItemsDelete i) = False"

definition only_reads :: "remote \<Rightarrow> remote \<Rightarrow> bool" where
  "only_reads w w' =
     (channel_uploads w' = channel_uploads w \<and> playlists w' = playlists w \<and> videos w' = videos w
      \<and> refuses w' = refuses w \<and> next_item_id w' = next_item_id w
      \<and> (\<exists>cs. issued w' = issued w @ cs \<and> list_all is_read cs))"

definition no_private_remote :: remote where
  "no_private_remote =
     sample_remote\<lparr>videos := (videos sample_remote)
        (''a'' \<mapsto> sample_video ''Salmo 1'' ''public'' (Some ''PT5M''))\<rparr>"

definition list_private_requests :: "remote \<Rightarrow> call list" where
  "list_private_requests w =
     (case channel_uploads w of
        [] \<Rightarrow> [ChannelsList]
      | u # _ \<Rightarrow> ChannelsList # PlaylistItemsList u 100
                 # map (\<lambda>item. VideosList (snippet_videoId item)) (take 100 (playlists w u)))"

text \<open>
  The videos of a playlist, row by row, and those among the first 100 rows, which is
  what a listing returns. A playlist has no duplicates when no video has two rows; its
  listing is complete when it has at most 100 rows. \<open>guarded ya\<close> relates two states when
  every insertion sent in between went to the target and was for a video outside \<open>ya\<close>;
  \<open>appended ya cands\<close> when the only change to the playlists is a run of new rows at the
  end of the target, for different videos among \<open>cands\<close> and outside \<open>ya\<close>. \<open>task_run\<close>
  is one run of either task that inserts. \<open>crowded_remote\<close> is the sample state with 101
  rows in the playlist, the last of them for the short \<open>b\<close>.
\<close>

definition members :: "remote \<Rightarrow> playlist_id \<Rightarrow> video_id list" where
  "members w p = map snippet_videoId (playlists w p)"

definition listed :: "remote \<Rightarrow> playlist_id \<Rightarrow> video_id list" where
  "listed w p = map snippet_videoId (take 100 (playlists w p))"

definition no_duplicates :: "remote \<Rightarrow> playlist_id \<Rightarrow> bool" where
  "no_duplicates w p = distinct (members w p)"

definition listing_complete :: "remote \<Rightarrow> playlist_id \<Rightarrow> bool" where
  "listing_complete w p = (length (playlists w p) \<le> 100)"

definition uploads_distinct :: "remote \<Rightarrow> bool" where
  "uploads_distinct w =
     (case channel_uploads w of [] \<Rightarrow> True | u # _ \<Rightarrow> distinct (listed w u))"

definition private_candidate :: "remote \<Rightarrow> playlist_item \<Rightarrow> bool" where
  "private_candidate w item =
     (case videos w (snippet_videoId item) of
        None \<Rightarrow> False
      | Some v \<Rightarrow> video_privacyStatus v = ''private'')"

definition guarded :: "playlist_id \<Rightarrow> video_id list \<Rightarrow> remote \<Rightarrow> remote \<Rightarrow> bool" where
  "guarded target ya w w' =
     (\<exists>cs. issued w' = issued w @ cs
        \<and> (\<forall>p v. PlaylistItemsInsert p v \<in> set cs \<longrightarrow> p = target \<and> v \<notin> set ya))"

definition inserts_only_absent :: "playlist_id \<Rightarrow> remote \<Rightarrow> remote \<Rightarrow> bool" where
  "inserts_only_absent target w w' = guarded target (listed w target) w w'"

definition task_run :: "playlist_id \<Rightarrow> remote \<Rightarrow> remote \<Rightarrow> bool" where
  "task_run target w w' =
     ((\<exists>r. add_public_shorts_execute target w = (r, w'))
      \<or> (\<exists>description clock r. full_automation_execute target description clock w = Some (r, w')))"

definition dedup_ready :: "remote \<Rightarrow> playlist_id \<Rightarrow> bool" where
  "dedup_ready w target =
     (listing_complete w target \<and> no_duplicates w target \<and> uploads_distinct w)"

definition crowded_remote :: remote where
  "crowded_remote =
     sample_remote\<lparr>playlists :=
       (\<lambda>p. if p = ''PL''
            then map (\<lambda>i. sample_row i ''Relleno'' (''x'' @ digits_of i)) [0..<100]
                 @ [sample_row 100 ''Short b'' ''b'']
            else playlists sample_remote p)\<rparr>"

definition appended :: "playlist_id \<Rightarrow> video_id list \<Rightarrow> video_id list \<Rightarrow> remote \<Rightarrow> remote \<Rightarrow> bool" where
  "appended target ya cands w w' =
     (channel_uploads w' = channel_uploads w
      \<and> (\<exists>new. playlists w' = (playlists w)(target := playlists w target @ new)
            \<and> distinct (map snippet_videoId new)
            \<and> set (map snippet_videoId new) \<subseteq> set cands - set ya))"

text \<open>
  Two states of the platform have the same prefix when they differ at most in the rows
  of their playlists beyond the first 100. A computation keeps the prefix when, from two
  such states, it returns the same result and ends in two such states; it depends on the
  prefix only when it returns the same result and sends the same requests.
  \<open>trimmed_remote\<close> is \<open>crowded_remote\<close> without the rows beyond the first 100.
\<close>

definition same_prefix :: "remote \<Rightarrow> remote \<Rightarrow> bool" where
  "same_prefix w v =
     (channel_uploads w = channel_uploads v \<and> videos w = videos v \<and> refuses w = refuses v
      \<and> issued w = issued v \<and> next_item_id w = next_item_id v
      \<and> (\<forall>p. take 100 (playlists w p) = take 100 (playlists v p)))"

definition same_requests :: "remote \<Rightarrow> remote \<Rightarrow> bool" where
  "same_requests w v = (refuses w = refuses v \<and> issued w = issued v)"

definition keeps_prefix :: "'a api \<Rightarrow> bool" where
  "keeps_prefix m =
     (\<forall>w v. same_prefix w v \<longrightarrow> fst (m w) = fst (m v) \<and> same_prefix (snd (m w)) (snd (m v)))"

definition prefix_only :: "'a api \<Rightarrow> bool" where
  "prefix_only m =
     (\<forall>w v. same_prefix w v \<longrightarrow> fst (m w) = fst (m v) \<and> issued (snd (m w)) = issued (snd (m v)))"

definition trimmed_remote :: remote where
  "trimmed_remote =
     crowded_remote\<lparr>playlists := (\<lambda>p. take 100 (playlists crowded_remote p))\<rparr>"

text \<open>A text has a number token for the unit \<open>c\<close> when a digit stands right before a \<open>c\<close>.\<close>

fun has_number_unit :: "char \<Rightarrow> string \<Rightarrow> bool" where
  "has_number_unit c (x # y # zs) = ((is_digit x \<and> y = c) \<or> has_number_unit c (y # zs))"
| "has_number_unit c _ = False"

section \<open>Properties of the duration check\<close>

lemma is_digit_char_of: "(n::nat) < 10 \<Longrightarrow> is_digit (char_of (48 + n))"
  by (simp add: is_digit_def Let_def)

lemma digit_value_char_of: "(n::nat) < 10 \<Longrightarrow> digit_value (char_of (48 + n)) = int n"
  by (simp add: digit_value_def)

lemma digits_of_digits: "\<forall>c \<in> set (digits_of n). is_digit c"
proof (induction n rule: digits_of.induct)
  case (1 n)
  show ?case
  proof (cases "n < 10")
    case True
    then show ?thesis by (simp add: digits_of.simps [of n] is_digit_char_of)
  next
    case False
    have "n mod 10 < 10" by simp
    then have "is_digit (char_of (48 + n mod 10))" by (rule is_digit_char_of)
    with False 1 show ?thesis by (simp add: digits_of.simps [of n])
  qed
qed

lemma digits_of_nonempty: "digits_of n \<noteq> []"
  by (simp add: digits_of.simps [of n])

lemma py_int_snoc: "py_int (ds @ [d]) = 10 * py_int ds + digit_value d"
  by (simp add: py_int_def)

lemma py_int_digits_of: "py_int (digits_of n) = int n"
proof (induction n rule: digits_of.induct)
  case (1 n)
  show ?case
  proof (cases "n < 10")
    case True
    then show ?thesis by (simp add: digits_of.simps [of n] py_int_def digit_value_char_of)
  next
    case False
    have "n mod 10 < 10" by simp
    then have d: "digit_value (char_of (48 + n mod 10)) = int (n mod 10)" by (rule digit_value_char_of)
    from False 1 have "py_int (digits_of (n div 10)) = int (n div 10)" by simp
    moreover have "10 * int (n div 10) + int (n mod 10) = int n"
      by (metis mult_div_mod_eq of_nat_add of_nat_mult of_nat_numeral)
    ultimately show ?thesis using False d by (simp add: digits_of.simps [of n] py_int_snoc)
  qed
qed

lemma match_at_run:
  assumes "ds \<noteq> []" "\<forall>d \<in> set ds. is_digit d" "\<not> is_digit c"
  shows "match_number_unit c (ds @ c # rest) = Some ds"
  using assms by (simp add: match_number_unit_def Let_def takeWhile_append2 dropWhile_append2  takeWhile_tail dropWhile_append3)

lemma search_at_run:
  assumes "ds \<noteq> []" "\<forall>d \<in> set ds. is_digit d" "\<not> is_digit c"
  shows "search_number_unit c (ds @ c # rest) = Some ds"
proof -
  from assms(1) obtain x xs where "ds = x # xs" by (cases ds) auto
  with match_at_run [OF assms, of rest] show ?thesis by simp
qed

lemma search_skip: "\<not> is_digit x \<Longrightarrow> search_number_unit c (x # xs) = search_number_unit c xs"
  by (simp add: match_number_unit_def)

lemma search_past_run:
  assumes "\<forall>d \<in> set ds. is_digit d" "\<not> is_digit u" "u \<noteq> c"
  shows "search_number_unit c (ds @ u # rest) = search_number_unit c rest"
  using assms
proof (induction ds)
  case Nil
  then show ?case by (simp add: match_number_unit_def)
next
  case (Cons d ds)
  then have "match_number_unit c ((d # ds) @ u # rest) = None"
    by (simp add: match_number_unit_def Let_def takeWhile_append2 dropWhile_append2 dropWhile_append3)
  with Cons show ?case by simp
qed

lemma has_run: "ds \<noteq> [] \<Longrightarrow> \<forall>d \<in> set ds. is_digit d \<Longrightarrow> has_number_unit c (ds @ c # r)"
proof (induction ds)
  case Nil
  then show ?case by simp
next
  case (Cons d ds)
  then show ?case by (cases ds) auto
qed

lemma match_has:
  assumes "match_number_unit c s = Some g"
  shows "has_number_unit c s"
proof -
  let ?ds = "takeWhile is_digit s" and ?rest = "dropWhile is_digit s"
  from assms have ne: "?ds \<noteq> []" and r: "?rest \<noteq> []" and h: "hd ?rest = c"
    by (auto simp: match_number_unit_def Let_def split: if_splits)
  from r h have "?rest = c # tl ?rest" by (cases ?rest) auto
  then have "s = ?ds @ c # tl ?rest" by (metis takeWhile_dropWhile_id)
  moreover have "\<forall>d \<in> set ?ds. is_digit d" by (auto dest: set_takeWhileD)
  ultimately show ?thesis using has_run [OF ne, of c "tl ?rest"] by simp
qed

lemma has_Cons: "has_number_unit c xs \<Longrightarrow> has_number_unit c (x # xs)"
  by (cases xs) auto

lemma search_has: "search_number_unit c s = Some g \<Longrightarrow> has_number_unit c s"
  by (induction s) (auto split: option.splits dest: match_has has_Cons)

lemma has_search: "\<not> is_digit c \<Longrightarrow> has_number_unit c s \<Longrightarrow> search_number_unit c s \<noteq> None"
proof (induction c s rule: has_number_unit.induct)
  case (1 c x y zs)
  show ?case
  proof (cases "is_digit x \<and> y = c")
    case True
    with 1 have "match_number_unit c (x # y # zs) = Some [x]"
      by (simp add: match_number_unit_def)
    then show ?thesis by simp
  next
    case False
    with 1 have "search_number_unit c (y # zs) \<noteq> None" by simp
    then show ?thesis by (simp del: search_number_unit.simps(2) add: search_number_unit.simps(2) [of c x] split: option.splits)
  qed
qed simp_all


lemma not_digit_units [simp]:
  "\<not> is_digit (CHR ''P'')" "\<not> is_digit (CHR ''T'')" "\<not> is_digit (CHR ''H'')"
  "\<not> is_digit (CHR ''M'')" "\<not> is_digit (CHR ''S'')"
  by (simp_all add: is_digit_def)

lemma component_None [simp]: "component None u = []"
  by (simp add: component_def)

lemma search_component_same:
  "\<not> is_digit u \<Longrightarrow> search_number_unit u (component v u @ rest) =
     (case v of None \<Rightarrow> search_number_unit u rest | Some n \<Rightarrow> Some (digits_of n))"
  by (cases v) (simp_all add: component_def search_at_run digits_of_nonempty digits_of_digits)

lemma search_component_other:
  "\<not> is_digit u \<Longrightarrow> u \<noteq> c \<Longrightarrow>
   search_number_unit c (component v u @ rest) = search_number_unit c rest"
  by (cases v) (simp_all add: component_def search_past_run digits_of_digits)

lemma search_minutes_encode:
  "search_number_unit (CHR ''M'') (encode_duration None m s) = map_option digits_of m"
proof -
  have "search_number_unit (CHR ''M'') (encode_duration None m s) =
        search_number_unit (CHR ''M'') (component m (CHR ''M'') @ component s (CHR ''S'') @ [])"
    by (simp add: encode_duration_def search_skip del: search_number_unit.simps(2))
  also have "\<dots> = (case m of None \<Rightarrow> search_number_unit (CHR ''M'') (component s (CHR ''S'') @ [])
       | Some n \<Rightarrow> Some (digits_of n))"
    by (rule search_component_same) simp
  also have "search_number_unit (CHR ''M'') (component s (CHR ''S'') @ []) = None"
    by (subst search_component_other) simp_all
  finally show ?thesis by (cases m) simp_all
qed

lemma search_seconds_encode:
  "search_number_unit (CHR ''S'') (encode_duration None m s) = map_option digits_of s"
proof -
  have "search_number_unit (CHR ''S'') (encode_duration None m s) =
        search_number_unit (CHR ''S'') (component m (CHR ''M'') @ component s (CHR ''S'') @ [])"
    by (simp add: encode_duration_def search_skip del: search_number_unit.simps(2))
  also have "\<dots> = search_number_unit (CHR ''S'') (component s (CHR ''S'') @ [])"
    by (rule search_component_other) simp_all
  also have "\<dots> = (case s of None \<Rightarrow> search_number_unit (CHR ''S'') [] | Some n \<Rightarrow> Some (digits_of n))"
    by (rule search_component_same) simp
  finally show ?thesis by (cases s) simp_all
qed

lemma total_seconds_encode:
  "total_seconds (encode_duration None m s) = 60 * amount m + amount s"
  by (cases m; cases s)
     (simp_all add: total_seconds_def search_minutes_encode search_seconds_encode
        py_int_digits_of amount_def)

lemma hour_letter_digits: "CHR ''H'' \<notin> set (digits_of n)"
  using digits_of_digits [of n] not_digit_units(3) by blast

lemma hour_letter_encode: "CHR ''H'' \<in> set (encode_duration h m s) \<longleftrightarrow> h \<noteq> None"
  by (cases h; cases m; cases s) (simp_all add: encode_duration_def component_def hour_letter_digits)

lemma check_duration_encode:
  "check_duration (encode_duration h m s) mx \<longleftrightarrow>
     h = None \<and> 0 < 60 * amount m + amount s \<and> 60 * amount m + amount s \<le> mx"
proof (cases h)
  case None
  then show ?thesis
    using hour_letter_encode [of None m s]
    by (simp add: check_duration_def total_seconds_encode)
next
  case (Some a)
  then show ?thesis
    using hour_letter_encode [of h m s] by (simp add: check_duration_def)
qed

text \<open>
  The search finds a number token exactly when the text has one.
\<close>

lemma search_None_iff:
  "\<not> is_digit c \<Longrightarrow> search_number_unit c s = None \<longleftrightarrow> \<not> has_number_unit c s"
  using search_has [of c s] has_search [of c s] by (cases "search_number_unit c s") auto

text \<open>
  Claim C10. The duration check returns on every text. For a text with no \<open>H\<close> and with
  no minute token and no second token (a digit right before \<open>M\<close>, a digit right before
  \<open>S\<close>), the empty text among them, the total is 0 seconds and the check answers
  \<open>False\<close>.
\<close>

theorem check_duration_no_token:
  assumes "CHR ''H'' \<notin> set d" "\<not> has_number_unit (CHR ''M'') d" "\<not> has_number_unit (CHR ''S'') d"
  shows "total_seconds d = 0 \<and> check_duration d mx = False"
proof -
  from assms(2) have "search_number_unit (CHR ''M'') d = None"
    using search_has [of "CHR ''M''" d] by (cases "search_number_unit (CHR ''M'') d") auto
  moreover from assms(3) have "search_number_unit (CHR ''S'') d = None"
    using search_has [of "CHR ''S''" d] by (cases "search_number_unit (CHR ''S'') d") auto
  ultimately have "total_seconds d = 0" by (simp add: total_seconds_def)
  then show ?thesis by (simp add: check_duration_def)
qed


theorem check_duration_no_token_witness:
  "CHR ''H'' \<notin> set [] \<and> \<not> has_number_unit (CHR ''M'') [] \<and> \<not> has_number_unit (CHR ''S'') []
   \<and> total_seconds [] = 0 \<and> check_duration [] 120 = False"
proof -
  have h: "CHR ''H'' \<notin> set []" "\<not> has_number_unit (CHR ''M'') []"
    "\<not> has_number_unit (CHR ''S'') []"
    by simp_all
  show ?thesis using h check_duration_no_token [OF h, of 120] by simp
qed

section \<open>Properties of the selection of public shorts\<close>

lemma send_frame:
  "send c w = (r, w') \<Longrightarrow>
   videos w' = videos w \<and> playlists w' = playlists w \<and> channel_uploads w' = channel_uploads w
   \<and> refuses w' = refuses w \<and> next_item_id w' = next_item_id w \<and> issued w' = issued w @ [c]
   \<and> (r = Inl HttpError \<or> r = Inr ())"
  by (auto simp: send_def Let_def split: if_splits)

lemma get_full_video_data_result:
  assumes "get_full_video_data v w = (r, w')"
  shows "videos w' = videos w \<and> playlists w' = playlists w \<and> channel_uploads w' = channel_uploads w
   \<and> refuses w' = refuses w \<and> next_item_id w' = next_item_id w \<and> issued w' = issued w @ [VideosList v]
   \<and> (r = Inl HttpError \<or> r = Inr (videos w v))"
proof (cases "send (VideosList v) w")
  case (Pair a w1)
  from send_frame [OF Pair] Pair assms show ?thesis
    by (cases a) (auto simp: get_full_video_data_def videos_list_def and_then_def split: option.splits)
qed

lemma select_shorts_selects:
  "select_shorts items acc w = (Inr sel, w') \<Longrightarrow>
   sel = acc @ map as_selected (filter (short_candidate w) items)"
proof (induction items arbitrary: acc w)
  case Nil
  then show ?case by simp
next
  case (Cons item items)
  obtain r w1 where g: "get_full_video_data (snippet_videoId item) w = (r, w1)"
    by (cases "get_full_video_data (snippet_videoId item) w")
  from get_full_video_data_result [OF g]
  have v: "videos w1 = videos w" and r: "r = Inl HttpError \<or> r = Inr (videos w (snippet_videoId item))"
    by simp_all
  have sc: "short_candidate w1 = short_candidate w"
    by (rule ext) (simp add: short_candidate_def v)
  from Cons.prems g r obtain d where d: "videos w (snippet_videoId item) = Some d" and rr: "r = Inr (Some d)"
    by (cases "videos w (snippet_videoId item)") (auto simp: Let_def)
  show ?case
  proof (cases "short_candidate w item")
    case True
    with d have "video_privacyStatus d = ''public''"
      "check_duration (case video_duration d of None \<Rightarrow> [] | Some d \<Rightarrow> d) 120"
      by (simp_all add: short_candidate_def)
    with Cons.prems g rr
    have "select_shorts items (acc @ [as_selected item]) w1 = (Inr sel, w')"
      by (simp add: Let_def as_selected_def)
    from Cons.IH [OF this] True show ?thesis by (simp add: sc)
  next
    case False
    with d have "\<not> (video_privacyStatus d = ''public''
      \<and> check_duration (case video_duration d of None \<Rightarrow> [] | Some d \<Rightarrow> d) 120)"
      by (simp add: short_candidate_def)
    with Cons.prems g rr
    have "select_shorts items acc w1 = (Inr sel, w')"
      by (auto simp: Let_def split: if_splits)
    from Cons.IH [OF this] False show ?thesis by (simp add: sc)
  qed
qed

text \<open>
  What the selection does. The loop keeps exactly the rows whose video is public and
  passes the duration check, in the order of the listing. For an encoding of hours,
  minutes and seconds the check holds exactly when there is no hour component and
  \<open>60 m + s\<close> lies in \<open>(0, max]\<close>. Any text with an \<open>H\<close> is excluded; without one,
  the check is the test of the total of the minute and second tokens against the bounds.
\<close>

lemma public_short_filter:
  "(fst (select_shorts items [] w) = Inr sel \<longrightarrow>
      sel = map as_selected (filter (short_candidate w) items))
   \<and> (check_duration (encode_duration h m s) mx
        = (h = None \<and> 0 < 60 * amount m + amount s \<and> 60 * amount m + amount s \<le> mx))
   \<and> (CHR ''H'' \<in> set d \<longrightarrow> \<not> check_duration d mx)
   \<and> (CHR ''H'' \<notin> set d \<longrightarrow>
        check_duration d mx = (0 < total_seconds d \<and> total_seconds d \<le> mx))"
proof -
  have "sel = map as_selected (filter (short_candidate w) items)"
    if "fst (select_shorts items [] w) = Inr sel"
  proof -
    from that obtain w' where "select_shorts items [] w = (Inr sel, w')"
      by (cases "select_shorts items [] w") auto
    from select_shorts_selects [OF this] show ?thesis by simp
  qed
  then show ?thesis
    using check_duration_encode [of h m s mx] by (auto simp: check_duration_def)
qed

text \<open>
  Claim C5, on the code. The check reads the minute and second tokens only and excludes
  on \<open>H\<close> alone. The platform writes a duration of one day and thirty seconds as
  \<open>P1DT30S\<close>: the total computed is 30, the check holds at 120, and the selection keeps
  a public video of 86430 seconds.
\<close>

theorem day_component_ignored:
  "total_seconds ''P1DT30S'' = 30 \<and> check_duration ''P1DT30S'' 120
   \<and> fst (select_shorts [sample_row 4 ''Directo'' ''d''] []
          (sample_remote\<lparr>videos := (videos sample_remote)
             (''d'' \<mapsto> sample_video ''Directo'' ''public'' (Some ''P1DT30S''))\<rparr>))
       = Inr [as_selected (sample_row 4 ''Directo'' ''d'')]"
  by code_simp

section \<open>Properties of the title tag\<close>

lemma lower_append: "lower (a @ b) = lower a @ lower b"
  by (simp add: lower_def)

lemma lower_tag: "lower '' #biblia'' = '' #biblia''"
  by (simp add: lower_def lower_char_def)

lemma tag_in_tagged: "sublist ''#biblia'' (lower (title @ '' #biblia''))"
proof -
  have "lower (title @ '' #biblia'') = (lower title @ '' '') @ ''#biblia'' @ []"
    by (simp add: lower_append lower_tag)
  then show ?thesis unfolding sublist_def by blast
qed

text \<open>
  Claim C7. The title tag is idempotent: tagging a tagged title changes nothing. A title
  that has the tag in any mix of cases is kept as it is, and every tagged title has the
  tag.
\<close>

theorem new_title_idempotent:
  "new_title (new_title title) = new_title title
   \<and> (sublist ''#biblia'' (lower title) \<longrightarrow> new_title title = title)
   \<and> sublist ''#biblia'' (lower (new_title title))"
  using tag_in_tagged [of title] by (simp add: new_title_def)

theorem new_title_idempotent_witness:
  "sublist ''#biblia'' (lower ''Salmo 23 #Biblia'')
   \<and> new_title ''Salmo 23 #Biblia'' = ''Salmo 23 #Biblia''
   \<and> new_title (new_title ''Salmo 23'') = ''Salmo 23 #biblia''"
proof -
  have t: "new_title ''Salmo 23'' = ''Salmo 23 #biblia''"
    by code_simp
  have p: "sublist ''#biblia'' (lower ''Salmo 23 #Biblia'')"
    by code_simp
  show ?thesis
    using p t new_title_idempotent [of "''Salmo 23 #Biblia''"]
      new_title_idempotent [of "''Salmo 23''"]
    by simp
qed

section \<open>Properties of the two sorts\<close>

lemma sort_private_example:
  assumes "map pv_title xs = [''B'', ''a'', ''C'']"
  shows "map pv_title (sort_private xs) = [''B'', ''C'', ''a'']"
proof -
  from assms obtain x y z where xs: "xs = [x, y, z]"
    and t: "pv_title x = ''B''" "pv_title y = ''a''" "pv_title z = ''C''"
    by auto
  show ?thesis by (simp add: xs t sort_private_def)
qed

lemma sort_shorts_example:
  assumes "map sv_title xs = [''B'', ''a'', ''C'']"
  shows "map sv_title (sort_shorts xs) = [''C'', ''B'', ''a'']"
proof -
  from assms obtain x y z where xs: "xs = [x, y, z]"
    and t: "sv_title x = ''B''" "sv_title y = ''a''" "sv_title z = ''C''"
    by auto
  have l: "lower ''B'' = ''b''" "lower ''a'' = ''a''" "lower ''C'' = ''c''"
    by code_simp+
  show ?thesis by (simp add: xs t sort_shorts_def l)
qed

lemma sort_private_sorted:
  "sorted (map pv_title (sort_private xs)) \<and> mset (sort_private xs) = mset xs
   \<and> filter (\<lambda>x. pv_title x = t) (sort_private xs) = filter (\<lambda>x. pv_title x = t) xs"
  by (simp add: sort_private_def sort_key_stable)

lemma sort_shorts_sorted:
  "sorted (rev (map (\<lambda>x. lower (sv_title x)) (sort_shorts ys))) \<and> mset (sort_shorts ys) = mset ys
   \<and> filter (\<lambda>x. lower (sv_title x) = k) (sort_shorts ys) = filter (\<lambda>x. lower (sv_title x) = k) ys"
  by (simp add: sort_shorts_def sort_key_stable rev_map [symmetric] rev_filter [symmetric])

text \<open>
  Claim C6. The private videos are sorted by title, ascending, upper case before lower
  case: titles \<open>B, a, C\<close> come out as \<open>B, C, a\<close>. The public shorts are sorted by the
  lower-case title, descending: the same titles come out as \<open>C, B, a\<close>. Each sort is a
  function of its input: its result is a rearrangement of the input, ordered by the key,
  in which entries with equal keys keep the order they had.
\<close>

theorem sorts_by_title:
  "(map pv_title xs = [''B'', ''a'', ''C''] \<longrightarrow> map pv_title (sort_private xs) = [''B'', ''C'', ''a''])
   \<and> (map sv_title ys = [''B'', ''a'', ''C''] \<longrightarrow> map sv_title (sort_shorts ys) = [''C'', ''B'', ''a''])
   \<and> sorted (map pv_title (sort_private xs)) \<and> mset (sort_private xs) = mset xs
   \<and> filter (\<lambda>x. pv_title x = t) (sort_private xs) = filter (\<lambda>x. pv_title x = t) xs
   \<and> sorted (rev (map (\<lambda>x. lower (sv_title x)) (sort_shorts ys))) \<and> mset (sort_shorts ys) = mset ys
   \<and> filter (\<lambda>x. lower (sv_title x) = k) (sort_shorts ys) = filter (\<lambda>x. lower (sv_title x) = k) ys"
  using sort_private_example [of xs] sort_shorts_example [of ys]
    sort_private_sorted [of xs t] sort_shorts_sorted [of ys k]
  by blast

theorem sorts_by_title_witness:
  "map pv_title [sample_private ''B'' ''v1'', sample_private ''a'' ''v2'', sample_private ''C'' ''v3'']
     = [''B'', ''a'', ''C'']
   \<and> map pv_title
         (sort_private [sample_private ''B'' ''v1'', sample_private ''a'' ''v2'', sample_private ''C'' ''v3''])
       = [''B'', ''C'', ''a'']
   \<and> map sv_title [\<lparr>sv_title = ''B'', sv_id = ''v1''\<rparr>, \<lparr>sv_title = ''a'', sv_id = ''v2''\<rparr>,
                   \<lparr>sv_title = ''C'', sv_id = ''v3''\<rparr>] = [''B'', ''a'', ''C'']
   \<and> map sv_title
         (sort_shorts [\<lparr>sv_title = ''B'', sv_id = ''v1''\<rparr>, \<lparr>sv_title = ''a'', sv_id = ''v2''\<rparr>,
                       \<lparr>sv_title = ''C'', sv_id = ''v3''\<rparr>])
       = [''C'', ''B'', ''a'']"
proof -
  let ?xs = "[sample_private ''B'' ''v1'', sample_private ''a'' ''v2'', sample_private ''C'' ''v3'']"
  let ?ys = "[\<lparr>sv_title = ''B'', sv_id = ''v1''\<rparr>, \<lparr>sv_title = ''a'', sv_id = ''v2''\<rparr>,
              \<lparr>sv_title = ''C'', sv_id = ''v3''\<rparr>]"
  have mx: "map pv_title ?xs = [''B'', ''a'', ''C'']" by (simp add: sample_private_def)
  have my: "map sv_title ?ys = [''B'', ''a'', ''C'']" by simp
  from sorts_by_title [of ?xs ?ys "[]" "[]"] mx my
  have "map pv_title (sort_private ?xs) = [''B'', ''C'', ''a'']"
    and "map sv_title (sort_shorts ?ys) = [''C'', ''B'', ''a'']"
    by blast+
  with mx my show ?thesis by blast
qed

section \<open>Properties of the slot calendar\<close>

lemma dt_less_ordinal: "ordinal a < ordinal b \<Longrightarrow> dt_less a b"
  by (simp add: dt_less_def dt_fields_def)

lemma dt_less_le: "dt_less a b \<Longrightarrow> dt_le a b"
  by (simp add: dt_less_def dt_le_def)

lemma dt_le_less_trans: "dt_le a b \<Longrightarrow> dt_less b c \<Longrightarrow> dt_less a c"
  unfolding dt_less_def dt_le_def by (rule order_le_less_trans)

lemma weekday_cases:
  "weekday d = 0 \<or> weekday d = 1 \<or> weekday d = 2 \<or> weekday d = 3 \<or> weekday d = 4
   \<or> weekday d = 5 \<or> weekday d = 6"
proof -
  have "weekday d < 7" by (simp add: weekday_def)
  then show ?thesis by arith
qed

lemma scan_slots_fixed:
  "scan_slots clock quantity current slots dates reads =
     Inr (if dt_less (clock reads) (slot_instant current) \<and> int (length dates) < quantity
          then dates @ [slot_instant current] else dates, Suc reads)"
  using weekday_cases [of current]
  by (elim disjE) (simp_all add: slots_def replace_time_def slot_instant_def slot_time_def)

lemma ordinal_slot_instant [simp]: "ordinal (slot_instant c) = ordinal c"
  by (simp add: slot_instant_def)

lemma next_day_Inr:
  "ordinal c < max_ordinal \<Longrightarrow>
   next_day c = Inr (c\<lparr>ordinal := Suc (ordinal c), hour := 0, minute := 0\<rparr>)"
  by (simp add: next_day_def)


lemma loop_fixed:
  assumes mono: "\<forall>i j. i \<le> j \<longrightarrow> dt_le (clock i) (clock j)"
    and bound: "\<forall>i. ordinal (clock i) \<le> D"
  shows "int (length dates) \<le> quantity \<Longrightarrow> sorted_wrt dt_le dates \<Longrightarrow>
     \<forall>d \<in> set dates. ordinal d < ordinal current \<and> dt_less (clock 0) d \<Longrightarrow>
     max (ordinal current) (Suc D) + (nat quantity - length dates) \<le> max_ordinal \<Longrightarrow>
     \<exists>ds. schedule_loop clock slots quantity current dates reads = Some (Inr ds)
       \<and> int (length ds) = quantity \<and> sorted_wrt dt_le ds \<and> (\<forall>d \<in> set ds. dt_less (clock 0) d)"
proof (induction "(nat quantity - length dates) + (Suc D - ordinal current)"
    arbitrary: dates current reads rule: less_induct)
  case less
  show ?case
  proof (cases "int (length dates) < quantity")
    case False
    with less.prems show ?thesis
      by (subst schedule_loop.simps) auto
  next
    case True
    let ?p = "slot_instant current"
    let ?n = "current\<lparr>ordinal := Suc (ordinal current), hour := 0, minute := 0\<rparr>"
    from True less.prems(4) have "ordinal current < max_ordinal" by simp
    then have nd: "next_day current = Inr ?n" by (rule next_day_Inr)
    show ?thesis
    proof (cases "dt_less (clock reads) ?p")
      case yes: True
      let ?dates = "dates @ [?p]"
      have m: "(nat quantity - length ?dates) + (Suc D - ordinal ?n)
               < (nat quantity - length dates) + (Suc D - ordinal current)"
        using True by simp
      have "dt_le (clock 0) (clock reads)" using mono by simp
      then have p0: "dt_less (clock 0) ?p" using yes by (rule dt_le_less_trans)
      have s: "sorted_wrt dt_le ?dates"
        using less.prems(2,3) by (auto simp: sorted_wrt_append intro!: dt_less_le dt_less_ordinal)
      have i: "\<forall>d \<in> set ?dates. ordinal d < ordinal ?n \<and> dt_less (clock 0) d"
        using less.prems(3) p0 by auto
      have l: "int (length ?dates) \<le> quantity" using True by simp
      have r: "max (ordinal ?n) (Suc D) + (nat quantity - length ?dates) \<le> max_ordinal"
        using less.prems(4) True by simp
      from less.hyps [OF m l s i r, of "Suc reads"] yes True nd show ?thesis
        by (subst schedule_loop.simps) (simp add: scan_slots_fixed)
    next
      case no: False
      have c: "ordinal current \<le> D"
      proof (rule ccontr)
        assume "\<not> ordinal current \<le> D"
        then have "ordinal (clock reads) < ordinal ?p" using bound [rule_format, of reads] by simp
        then have "dt_less (clock reads) ?p" by (rule dt_less_ordinal)
        with no show False by simp
      qed
      then have m: "(nat quantity - length dates) + (Suc D - ordinal ?n)
               < (nat quantity - length dates) + (Suc D - ordinal current)"
        by simp
      have i: "\<forall>d \<in> set dates. ordinal d < ordinal ?n \<and> dt_less (clock 0) d"
        using less.prems(3) by auto
      have r: "max (ordinal ?n) (Suc D) + (nat quantity - length dates) \<le> max_ordinal"
        using less.prems(4) c by simp
      from less.hyps [OF m less.prems(1,2) i r, of "Suc reads"] no True nd show ?thesis
        by (subst schedule_loop.simps) (simp add: scan_slots_fixed)
    qed
  qed
qed


text \<open>
  Claim C1, as the code has it. For a quantity of 0 the generator returns the empty list
  at once. For a quantity \<open>Q \<ge> 0\<close>, when the readings of the clock never go back and
  all fall on or before a day \<open>D\<close> with more than \<open>Q\<close> days left before the last day of
  the calendar, the generator returns a list of \<open>Q\<close> instants, each later than the first
  reading of the clock, in non-decreasing order.
\<close>

theorem generate_schedule_quantity:
  "generate_schedule clock 0 = Some (Inr [])
   \<and> (0 \<le> quantity \<and> never_back clock \<and> until_day clock D \<and> D + nat quantity < max_ordinal \<longrightarrow>
        (\<exists>ds. generate_schedule clock quantity = Some (Inr ds)
           \<and> int (length ds) = quantity
           \<and> (\<forall>d \<in> set ds. dt_less (clock 0) d)
           \<and> sorted_wrt dt_le ds))"
proof -
  have zero: "generate_schedule clock 0 = Some (Inr [])"
    by (simp add: generate_schedule_def generate_from_def schedule_loop.simps)
  have "\<exists>ds. generate_schedule clock quantity = Some (Inr ds)
           \<and> int (length ds) = quantity
           \<and> (\<forall>d \<in> set ds. dt_less (clock 0) d)
           \<and> sorted_wrt dt_le ds"
    if q: "0 \<le> quantity" and m: "never_back clock" and b: "until_day clock D"
      and r: "D + nat quantity < max_ordinal"
  proof -
    from m have mono: "\<forall>i j. i \<le> j \<longrightarrow> dt_le (clock i) (clock j)"
      by (simp add: never_back_def)
    from b have bound: "\<forall>i. ordinal (clock i) \<le> D"
      by (simp add: until_day_def)
    from bound have "ordinal (clock 0) \<le> D" by simp
    with r have "max (ordinal (clock 0)) (Suc D) + (nat quantity - length ([] :: datetime list))
        \<le> max_ordinal"
      by simp
    from loop_fixed [OF mono bound _ _ _ this, of 1] q
    show ?thesis by (auto simp: generate_schedule_def generate_from_def)
  qed
  with zero show ?thesis by blast
qed

theorem generate_schedule_quantity_witness:
  "never_back (\<lambda>n. wednesday_night) \<and> until_day (\<lambda>n. wednesday_night) 739000
   \<and> 739000 + nat 2 < max_ordinal
   \<and> generate_schedule (\<lambda>n. wednesday_night) 2 =
       Some (Inr [\<lparr>ordinal = 739001, hour = 13, minute = 0, second = 0, microsecond = 0\<rparr>,
                  \<lparr>ordinal = 739002, hour = 19, minute = 0, second = 0, microsecond = 0\<rparr>])
   \<and> (\<exists>ds. generate_schedule (\<lambda>n. wednesday_night) 2 = Some (Inr ds) \<and> int (length ds) = 2
         \<and> (\<forall>d \<in> set ds. dt_less wednesday_night d) \<and> sorted_wrt dt_le ds)"
proof -
  have m: "never_back (\<lambda>n. wednesday_night)"
    by (simp add: never_back_def dt_le_def)
  have b: "until_day (\<lambda>n. wednesday_night) 739000"
    by (simp add: until_day_def wednesday_night_def)
  have r: "739000 + nat 2 < max_ordinal"
    by (simp add: max_ordinal_def)
  have v: "generate_schedule (\<lambda>n. wednesday_night) 2 =
       Some (Inr [\<lparr>ordinal = 739001, hour = 13, minute = 0, second = 0, microsecond = 0\<rparr>,
                  \<lparr>ordinal = 739002, hour = 19, minute = 0, second = 0, microsecond = 0\<rparr>])"
    by (simp add: generate_schedule_def generate_from_def schedule_loop.simps slots_def
        wednesday_night_def weekday_def replace_time_def next_day_def max_ordinal_def
        dt_less_def dt_fields_def)
  from generate_schedule_quantity [of "\<lambda>n. wednesday_night" 2 739000] m b r
  have "\<exists>ds. generate_schedule (\<lambda>n. wednesday_night) 2 = Some (Inr ds) \<and> int (length ds) = 2
         \<and> (\<forall>d \<in> set ds. dt_less wednesday_night d) \<and> sorted_wrt dt_le ds"
    by simp
  with m b r v show ?thesis by blast
qed

text \<open>
  The claim as stated fails in two ways. On the evening of the last day the slot of the
  day is past and adding a day raises \<open>OverflowError\<close>: no list is returned. Under a
  clock set back after the first reading, the instant returned is later than the second
  reading but not later than the first.
\<close>

theorem generate_schedule_counterexample:
  "generate_schedule (\<lambda>n. last_evening) 1 = Some (Inl OverflowError)
   \<and> generate_schedule back_clock 1 =
       Some (Inr [\<lparr>ordinal = 739000, hour = 13, minute = 0, second = 0, microsecond = 0\<rparr>])
   \<and> \<not> dt_less (back_clock 0)
         \<lparr>ordinal = 739000, hour = 13, minute = 0, second = 0, microsecond = 0\<rparr>"
proof -
  have 1: "generate_schedule (\<lambda>n. last_evening) 1 = Some (Inl OverflowError)"
    by (simp add: generate_schedule_def generate_from_def schedule_loop.simps slots_def
        last_evening_def weekday_def replace_time_def next_day_def max_ordinal_def
        dt_less_def dt_fields_def)
  have 2: "generate_schedule back_clock 1 =
       Some (Inr [\<lparr>ordinal = 739000, hour = 13, minute = 0, second = 0, microsecond = 0\<rparr>])"
    by (simp add: generate_schedule_def generate_from_def schedule_loop.simps slots_def
        back_clock_def weekday_def replace_time_def next_day_def max_ordinal_def
        dt_less_def dt_fields_def)
  have 3: "\<not> dt_less (back_clock 0)
         \<lparr>ordinal = 739000, hour = 13, minute = 0, second = 0, microsecond = 0\<rparr>"
    by (simp add: back_clock_def dt_less_def dt_fields_def)
  from 1 2 3 show ?thesis by blast
qed


subsection \<open>Any template\<close>






section \<open>Properties of the search for private videos\<close>

lemma only_reads_refl: "only_reads w w"
  by (simp add: only_reads_def)

lemma only_reads_trans: "only_reads w w1 \<Longrightarrow> only_reads w1 w2 \<Longrightarrow> only_reads w w2"
  by (auto simp: only_reads_def)

lemma only_reads_send: "is_read c \<Longrightarrow> send c w = (r, w') \<Longrightarrow> only_reads w w'"
  using send_frame [of c w r w'] by (auto simp: only_reads_def)

lemma playlistItems_list_result:
  assumes "playlistItems_list p n w = (r, w')"
  shows "only_reads w w' \<and> issued w' = issued w @ [PlaylistItemsList p n]
     \<and> (r = Inl HttpError \<or> r = Inr (take n (playlists w p)))"
proof (cases "send (PlaylistItemsList p n) w")
  case (Pair a w1)
  from send_frame [OF Pair] only_reads_send [OF _ Pair] Pair assms show ?thesis
    by (cases a) (auto simp: playlistItems_list_def and_then_def)
qed

lemma fetch_videos_result:
  assumes "fetch_videos p w = (r, w')"
  shows "only_reads w w' \<and> issued w' = issued w @ [PlaylistItemsList p 100]
     \<and> (r = Inl HttpError \<or> r = Inr (take 100 (playlists w p)))"
  using playlistItems_list_result [of p 100 w r w'] assms by (simp add: fetch_videos_def)

lemma fetch_playlist_items_result:
  assumes "fetch_playlist_items p w = (r, w')"
  shows "only_reads w w' \<and> issued w' = issued w @ [PlaylistItemsList p 100]
     \<and> (r = Inl HttpError \<or> r = Inr (map snippet_videoId (take 100 (playlists w p))))"
proof (cases "playlistItems_list p 100 w")
  case (Pair a w1)
  from playlistItems_list_result [OF Pair] Pair assms show ?thesis
    by (cases a) (auto simp: fetch_playlist_items_def and_then_def)
qed

lemma get_uploads_playlist_id_result:
  assumes "get_uploads_playlist_id w = (r, w')"
  shows "only_reads w w' \<and> issued w' = issued w @ [ChannelsList]
     \<and> (r = Inl HttpError \<or> (channel_uploads w = [] \<and> r = Inl IndexError)
         \<or> (\<exists>u us. channel_uploads w = u # us \<and> r = Inr u))"
proof (cases "send ChannelsList w")
  case (Pair a w1)
  from send_frame [OF Pair] only_reads_send [OF _ Pair] Pair assms show ?thesis
    by (cases a) (auto simp: get_uploads_playlist_id_def and_then_def split: list.splits)
qed

lemma get_full_video_data_reads:
  "get_full_video_data v w = (r, w') \<Longrightarrow> only_reads w w'"
  using get_full_video_data_result [of v w r w'] by (auto simp: only_reads_def)

lemma filter_private_reads:
  "filter_private items acc w = (r, w') \<Longrightarrow> only_reads w w'"
proof (induction items arbitrary: acc w)
  case Nil
  then show ?case by (simp add: only_reads_refl)
next
  case (Cons item items)
  obtain a w1 where g: "get_full_video_data (snippet_videoId item) w = (a, w1)"
    by (cases "get_full_video_data (snippet_videoId item) w")
  note r1 = get_full_video_data_reads [OF g]
  from Cons.prems g have "w' = w1 \<or> (\<exists>acc'. filter_private items acc' w1 = (r, w'))"
    by (auto simp: Let_def split: sum.splits option.splits if_splits)
  then show ?case
    using r1 Cons.IH only_reads_trans by blast
qed

lemma filter_private_issued:
  "filter_private items acc w = (Inr x, w') \<Longrightarrow>
   issued w' = issued w @ map (\<lambda>item. VideosList (snippet_videoId item)) items"
proof (induction items arbitrary: acc w)
  case Nil
  then show ?case by simp
next
  case (Cons item items)
  obtain a w1 where g: "get_full_video_data (snippet_videoId item) w = (a, w1)"
    by (cases "get_full_video_data (snippet_videoId item) w")
  from get_full_video_data_result [OF g]
  have i: "issued w1 = issued w @ [VideosList (snippet_videoId item)]" by simp
  from Cons.prems g have "\<exists>acc'. filter_private items acc' w1 = (Inr x, w')"
    by (auto simp: Let_def split: sum.splits option.splits if_splits)
  then obtain acc' where "filter_private items acc' w1 = (Inr x, w')" ..
  from Cons.IH [OF this] i show ?case by simp
qed

lemma list_private_execute_reads:
  assumes "list_private_execute w = (r, w')"
  shows "only_reads w w'"
proof -
  obtain a w1 where u: "get_uploads_playlist_id w = (a, w1)"
    by (cases "get_uploads_playlist_id w")
  note r1 = get_uploads_playlist_id_result [OF u]
  show ?thesis
  proof (cases a)
    case (Inl e)
    with assms u r1 show ?thesis by (simp add: list_private_execute_def and_then_def)
  next
    case (Inr uploads_id)
    obtain b w2 where f: "fetch_videos uploads_id w1 = (b, w2)"
      by (cases "fetch_videos uploads_id w1")
    note r2 = fetch_videos_result [OF f]
    show ?thesis
    proof (cases b)
      case (Inl e)
      with assms u f Inr r1 r2 show ?thesis
        by (auto simp: list_private_execute_def and_then_def intro: only_reads_trans)
    next
      case items: (Inr items)
      obtain c w3 where p: "filter_private items [] w2 = (c, w3)"
        by (cases "filter_private items [] w2")
      note r3 = filter_private_reads [OF p]
      from assms u f p Inr items have "w' = w3"
        by (cases c) (auto simp: list_private_execute_def and_then_def)
      with r1 r2 r3 show ?thesis by (blast intro: only_reads_trans)
    qed
  qed
qed

lemma list_private_execute_issued:
  assumes "list_private_execute w = (Inr x, w')"
  shows "issued w' = issued w @ list_private_requests w"
proof -
  obtain a w1 where u: "get_uploads_playlist_id w = (a, w1)"
    by (cases "get_uploads_playlist_id w")
  note r1 = get_uploads_playlist_id_result [OF u]
  from assms u obtain uploads_id where a: "a = Inr uploads_id"
    by (cases a) (auto simp: list_private_execute_def and_then_def)
  with r1 obtain us where cu: "channel_uploads w = uploads_id # us" by auto
  obtain b w2 where f: "fetch_videos uploads_id w1 = (b, w2)"
    by (cases "fetch_videos uploads_id w1")
  note r2 = fetch_videos_result [OF f]
  from assms u f a obtain items where b: "b = Inr items"
    by (cases b) (auto simp: list_private_execute_def and_then_def)
  from r1 have pw: "playlists w1 = playlists w" by (simp add: only_reads_def)
  from b r2 pw have it: "items = take 100 (playlists w uploads_id)" by auto
  obtain c w3 where p: "filter_private items [] w2 = (c, w3)"
    by (cases "filter_private items [] w2")
  from assms u f p a b obtain y where c: "c = Inr y" and w3: "w' = w3"
    by (cases c) (auto simp: list_private_execute_def and_then_def)
  from filter_private_issued [OF p [unfolded c]] r1 r2 w3 it cu show ?thesis
    by (simp add: list_private_requests_def)
qed

lemma full_automation_nothing_to_program:
  assumes "fst (list_private_execute w) = Inr []"
  shows "full_automation_execute target_playlist description clock w
           = Some (Inr (), snd (list_private_execute w))"
  using assms
  by (cases "list_private_execute w") (simp add: full_automation_execute_def)


text \<open>
  Claim C4, on the code. The search for private videos has no handler around the detail
  request: when the platform refuses the request for \<open>b\<close>, or no longer knows \<open>b\<close>, the
  task ends with the exception, returns no list, and the row after \<open>b\<close> is never looked
  at. Without the failure the same state yields the private video \<open>a\<close>.
\<close>

theorem list_private_aborts:
  "fst (list_private_execute (sample_remote\<lparr>refuses := (\<lambda>n c. c = VideosList ''b'')\<rparr>))
     = Inl HttpError
   \<and> issued (snd (list_private_execute (sample_remote\<lparr>refuses := (\<lambda>n c. c = VideosList ''b'')\<rparr>)))
       = [ChannelsList, PlaylistItemsList ''UU'' 100, VideosList ''a'', VideosList ''b'']
   \<and> fst (list_private_execute (sample_remote\<lparr>videos := (videos sample_remote)(''b'' := None)\<rparr>))
       = Inl TypeError
   \<and> issued (snd (list_private_execute (sample_remote\<lparr>videos := (videos sample_remote)(''b'' := None)\<rparr>)))
       = [ChannelsList, PlaylistItemsList ''UU'' 100, VideosList ''a'', VideosList ''b'']
   \<and> map pv_id (projr (fst (list_private_execute sample_remote))) = [''a'']"
  by code_simp


section \<open>Properties of the scheduling task\<close>

text \<open>
  Claim C9. When the search for private videos returns the empty list, the scheduling
  task returns at once, under any clock: the state of the platform is the one the search
  left, in which nothing but the list of requests has changed, and the requests of the
  run are those of the search, all of them reads. No update and no insertion is sent, the
  playlist and the uploads are not listed for the reference map, and the calendar is not
  called.
\<close>

theorem nothing_to_program:
  "fst (list_private_execute w) = Inr [] \<longrightarrow>
     full_automation_execute target_playlist description clock w
       = Some (Inr (), snd (list_private_execute w))
     \<and> only_reads w (snd (list_private_execute w))
     \<and> issued (snd (list_private_execute w)) = issued w @ list_private_requests w"
proof
  assume a: "fst (list_private_execute w) = Inr []"
  then obtain w' where e: "list_private_execute w = (Inr [], w')"
    by (cases "list_private_execute w") auto
  from full_automation_nothing_to_program [OF a] list_private_execute_reads [OF e]
    list_private_execute_issued [OF e] e
  show "full_automation_execute target_playlist description clock w
       = Some (Inr (), snd (list_private_execute w))
     \<and> only_reads w (snd (list_private_execute w))
     \<and> issued (snd (list_private_execute w)) = issued w @ list_private_requests w"
    by simp
qed

theorem nothing_to_program_witness:
  "fst (list_private_execute no_private_remote) = Inr []
   \<and> full_automation_execute ''PL'' ''Lectura diaria'' (\<lambda>n. wednesday_night) no_private_remote
       = Some (Inr (), snd (list_private_execute no_private_remote))
   \<and> only_reads no_private_remote (snd (list_private_execute no_private_remote))
   \<and> issued (snd (list_private_execute no_private_remote))
       = [ChannelsList, PlaylistItemsList ''UU'' 100, VideosList ''a'', VideosList ''b'',
          VideosList ''c'']"
proof -
  have a: "fst (list_private_execute no_private_remote) = Inr []"
    by code_simp
  have i: "issued no_private_remote @ list_private_requests no_private_remote
       = [ChannelsList, PlaylistItemsList ''UU'' 100, VideosList ''a'', VideosList ''b'',
          VideosList ''c'']"
    by code_simp
  from nothing_to_program [of no_private_remote "''PL''" "''Lectura diaria''" "\<lambda>n. wednesday_night"] a i
  show ?thesis by simp
qed

section \<open>Properties of the insertions into the playlist\<close>

lemma appended_refl: "appended target ya [] w w"
  by (auto simp: appended_def intro: exI [of _ "[]"])

lemma appended_reads: "only_reads w w' \<Longrightarrow> appended target ya [] w w'"
  by (auto simp: appended_def only_reads_def intro: exI [of _ "[]"])

lemma appended_trans:
  assumes "appended target ya c1 w w1" "appended target ya c2 w1 w2" "set c1 \<inter> set c2 = {}"
  shows "appended target ya (c1 @ c2) w w2"
proof -
  from assms(1) obtain n1 where 1: "channel_uploads w1 = channel_uploads w"
    "playlists w1 = (playlists w)(target := playlists w target @ n1)"
    "distinct (map snippet_videoId n1)" "set (map snippet_videoId n1) \<subseteq> set c1 - set ya"
    by (auto simp: appended_def)
  from assms(2) obtain n2 where 2: "channel_uploads w2 = channel_uploads w1"
    "playlists w2 = (playlists w1)(target := playlists w1 target @ n2)"
    "distinct (map snippet_videoId n2)" "set (map snippet_videoId n2) \<subseteq> set c2 - set ya"
    by (auto simp: appended_def)
  have "playlists w2 = (playlists w)(target := playlists w target @ (n1 @ n2))"
    by (simp add: 1 2)
  moreover have "distinct (map snippet_videoId (n1 @ n2))"
    using 1(3,4) 2(3,4) assms(3) by auto
  moreover have "set (map snippet_videoId (n1 @ n2)) \<subseteq> set (c1 @ c2) - set ya"
    using 1(4) 2(4) by auto
  ultimately show ?thesis using 1(1) 2(1) unfolding appended_def by metis
qed

lemma appended_distinct:
  assumes "appended target (listed w target) cands w w'"
    and "listing_complete w target" "no_duplicates w target"
  shows "no_duplicates w' target"
proof -
  from assms(1) obtain new where n: "playlists w' = (playlists w)(target := playlists w target @ new)"
    "distinct (map snippet_videoId new)"
    "set (map snippet_videoId new) \<subseteq> set cands - set (listed w target)"
    by (auto simp: appended_def)
  from assms(2) have "listed w target = members w target"
    by (simp add: listed_def members_def listing_complete_def)
  with n assms(3) show ?thesis
    by (auto simp: no_duplicates_def members_def)
qed

lemma appended_other:
  "appended target ya cands w w' \<Longrightarrow> p \<noteq> target \<Longrightarrow> playlists w' p = playlists w p"
  by (auto simp: appended_def)

lemma appended_mono:
  "appended target ya c w w' \<Longrightarrow> set c \<subseteq> set c' \<Longrightarrow> appended target ya c' w w'"
  unfolding appended_def by blast

lemma guarded_refl: "guarded target ya w w"
  by (simp add: guarded_def)

lemma guarded_trans: "guarded target ya w w1 \<Longrightarrow> guarded target ya w1 w2 \<Longrightarrow> guarded target ya w w2"
  by (auto simp: guarded_def)

lemma read_not_insert: "list_all is_read cs \<Longrightarrow> PlaylistItemsInsert p v \<notin> set cs"
  by (auto simp: list_all_iff)

lemma guarded_reads: "only_reads w w' \<Longrightarrow> guarded target ya w w'"
  by (auto simp: guarded_def only_reads_def dest: read_not_insert)

lemma and_then_cases:
  assumes "and_then m f w = (r, w')"
  obtains e where "m w = (Inl e, w')" "r = Inl e"
  | x w1 where "m w = (Inr x, w1)" "f x w1 = (r, w')"
  using assms by (cases "m w") (auto simp: and_then_def split: sum.splits)

lemma add_to_playlist_effect:
  assumes "add_to_playlist v target w = (r, w')"
  shows "issued w' = issued w @ [PlaylistItemsInsert target v]"
    and "v \<notin> set ya \<Longrightarrow> appended target ya [v] w w'"
proof -
  obtain a w1 where s: "send (PlaylistItemsInsert target v) w = (a, w1)"
    by (cases "send (PlaylistItemsInsert target v) w")
  note f = send_frame [OF s]
  from assms s f show "issued w' = issued w @ [PlaylistItemsInsert target v]"
    by (cases a) (auto simp: add_to_playlist_def playlistItems_insert_def and_then_def split: option.splits)
  assume v: "v \<notin> set ya"
  show "appended target ya [v] w w'"
  proof (cases "playlists w' = playlists w")
    case True
    with assms s f show ?thesis
      by (cases a) (auto simp: add_to_playlist_def playlistItems_insert_def and_then_def appended_def
          split: option.splits intro: exI [of _ "[]"])
  next
    case False
    with assms s f obtain row where "playlists w' = (playlists w)(target := playlists w target @ [row])"
      "snippet_videoId row = v" "channel_uploads w' = channel_uploads w"
      by (cases a) (auto simp: add_to_playlist_def playlistItems_insert_def and_then_def
          split: option.splits)
    with v show ?thesis
      by (auto simp: appended_def intro: exI [of _ "[row]"])
  qed
qed

lemma add_to_playlist_guarded:
  "add_to_playlist v target w = (r, w') \<Longrightarrow> v \<notin> set ya \<Longrightarrow> guarded target ya w w'"
  using add_to_playlist_effect(1) [of v target w r w'] by (simp add: guarded_def)

lemma insert_new_appended:
  "distinct (map sv_id vids) \<Longrightarrow> insert_new target ya vids n w = (n', w')
   \<Longrightarrow> appended target ya (map sv_id vids) w w'"
proof (induction vids arbitrary: n w)
  case Nil
  then show ?case by (simp add: appended_refl)
next
  case (Cons vid vids)
  from Cons.prems(1) have d: "distinct (map sv_id vids)" and nin: "sv_id vid \<notin> set (map sv_id vids)"
    by simp_all
  show ?case
  proof (cases "sv_id vid \<in> set ya")
    case True
    with Cons.prems(2) have "insert_new target ya vids n w = (n', w')" by simp
    from Cons.IH [OF d this] show ?thesis by (rule appended_mono) auto
  next
    case False
    obtain a w1 where i: "add_to_playlist (sv_id vid) target w = (a, w1)"
      by (cases "add_to_playlist (sv_id vid) target w")
    from Cons.prems(2) False i obtain m where "insert_new target ya vids m w1 = (n', w')"
      by (cases a) auto
    from Cons.IH [OF d this] add_to_playlist_effect(2) [OF i False] nin
    have "appended target ya ([sv_id vid] @ map sv_id vids) w w'"
      by (intro appended_trans) auto
    then show ?thesis by simp
  qed
qed

lemma insert_new_guarded:
  "insert_new target ya vids n w = (n', w') \<Longrightarrow> guarded target ya w w'"
proof (induction vids arbitrary: n w)
  case Nil
  then show ?case by (simp add: guarded_refl)
next
  case (Cons vid vids)
  show ?case
  proof (cases "sv_id vid \<in> set ya")
    case True
    with Cons.prems have "insert_new target ya vids n w = (n', w')" by simp
    from Cons.IH [OF this] show ?thesis .
  next
    case False
    obtain a w1 where i: "add_to_playlist (sv_id vid) target w = (a, w1)"
      by (cases "add_to_playlist (sv_id vid) target w")
    from Cons.prems False i obtain m where "insert_new target ya vids m w1 = (n', w')"
      by (cases a) auto
    from Cons.IH [OF this] add_to_playlist_guarded [OF i False] show ?thesis
      by (blast intro: guarded_trans)
  qed
qed

lemma update_video_content_effect:
  assumes "update_video_content b w = (r, w')"
  shows "playlists w' = playlists w \<and> channel_uploads w' = channel_uploads w
    \<and> issued w' = issued w @ [VideosUpdate b]"
proof -
  obtain a w1 where s: "send (VideosUpdate b) w = (a, w1)"
    by (cases "send (VideosUpdate b) w")
  from assms s send_frame [OF s] show ?thesis
    by (cases a) (auto simp: update_video_content_def videos_update_req_def and_then_def
        split: option.splits)
qed

lemma program_video_effect:
  "appended target ya [pv_id (fst pair)] w (program_video target description ya ref_map pair w)
   \<and> guarded target ya w (program_video target description ya ref_map pair w)"
proof -
  let ?b = "make_body description ref_map (fst pair) (snd pair)"
  obtain a w1 where u: "update_video_content ?b w = (a, w1)"
    by (cases "update_video_content ?b w")
  from update_video_content_effect [OF u]
  have 1: "appended target ya [] w w1" and g1: "guarded target ya w w1"
    by (auto simp: appended_def guarded_def intro: exI [of _ "[]"])
  show ?thesis
  proof (cases "\<exists>e. a = Inl e \<or> pv_id (fst pair) \<in> set ya")
    case True
    with u have "program_video target description ya ref_map pair w = w1"
      by (cases a) (auto simp: program_video_def Let_def)
    with 1 g1 show ?thesis by (auto intro: appended_mono)
  next
    case False
    then have nin: "pv_id (fst pair) \<notin> set ya" by simp
    obtain c w2 where i: "add_to_playlist (pv_id (fst pair)) target w1 = (c, w2)"
      by (cases "add_to_playlist (pv_id (fst pair)) target w1")
    from False u i have p: "program_video target description ya ref_map pair w = w2"
      by (cases a) (auto simp: program_video_def Let_def)
    from appended_trans [OF 1 add_to_playlist_effect(2) [OF i nin]]
    have "appended target ya [pv_id (fst pair)] w w2" by simp
    moreover from g1 add_to_playlist_guarded [OF i nin] have "guarded target ya w w2"
      by (rule guarded_trans)
    ultimately show ?thesis by (simp add: p)
  qed
qed

lemma program_all_appended:
  "distinct (map (\<lambda>p. pv_id (fst p)) pairs) \<Longrightarrow>
   appended target ya (map (\<lambda>p. pv_id (fst p)) pairs) w
     (program_all target description ya ref_map pairs w)"
proof (induction pairs arbitrary: w)
  case Nil
  then show ?case by (simp add: appended_refl)
next
  case (Cons pair pairs)
  let ?w1 = "program_video target description ya ref_map pair w"
  from Cons.prems have d: "distinct (map (\<lambda>p. pv_id (fst p)) pairs)"
    and nin: "pv_id (fst pair) \<notin> set (map (\<lambda>p. pv_id (fst p)) pairs)"
    by simp_all
  from program_video_effect [of target ya pair w description ref_map]
  have 1: "appended target ya [pv_id (fst pair)] w ?w1" by simp
  from appended_trans [OF 1 Cons.IH [OF d, of ?w1]] nin show ?case by simp
qed

lemma program_all_guarded:
  "guarded target ya w (program_all target description ya ref_map pairs w)"
proof (induction pairs arbitrary: w)
  case Nil
  then show ?case by (simp add: guarded_refl)
next
  case (Cons pair pairs)
  from program_video_effect [of target ya pair w description ref_map] Cons.IH
  show ?case by (auto intro: guarded_trans)
qed


lemma select_shorts_reads:
  "select_shorts items acc w = (r, w') \<Longrightarrow> only_reads w w'"
proof (induction items arbitrary: acc w)
  case Nil
  then show ?case by (simp add: only_reads_refl)
next
  case (Cons item items)
  obtain a w1 where g: "get_full_video_data (snippet_videoId item) w = (a, w1)"
    by (cases "get_full_video_data (snippet_videoId item) w")
  note r1 = get_full_video_data_reads [OF g]
  from Cons.prems g have "w' = w1 \<or> (\<exists>acc'. select_shorts items acc' w1 = (r, w'))"
    by (auto simp: Let_def split: sum.splits option.splits if_splits)
  then show ?case
    using r1 Cons.IH only_reads_trans by blast
qed

lemma filter_private_ids:
  "filter_private items acc w = (Inr x, w') \<Longrightarrow>
   map pv_id x = map pv_id acc @ map snippet_videoId (filter (private_candidate w) items)"
proof (induction items arbitrary: acc w)
  case Nil
  then show ?case by simp
next
  case (Cons item items)
  obtain r w1 where g: "get_full_video_data (snippet_videoId item) w = (r, w1)"
    by (cases "get_full_video_data (snippet_videoId item) w")
  from get_full_video_data_result [OF g]
  have v: "videos w1 = videos w" and r: "r = Inl HttpError \<or> r = Inr (videos w (snippet_videoId item))"
    by simp_all
  have pc: "private_candidate w1 = private_candidate w"
    by (rule ext) (simp add: private_candidate_def v)
  from Cons.prems g r obtain d where d: "videos w (snippet_videoId item) = Some d" and rr: "r = Inr (Some d)"
    by (cases "videos w (snippet_videoId item)") (auto simp: Let_def)
  show ?case
  proof (cases "private_candidate w item")
    case True
    with d have "video_privacyStatus d = ''private''" by (simp add: private_candidate_def)
    with Cons.prems g rr
    have "filter_private items
            (acc @ [\<lparr>pv_title = video_title d, pv_id = snippet_videoId item, pv_details = d\<rparr>]) w1
          = (Inr x, w')"
      by (simp add: Let_def)
    from Cons.IH [OF this] True show ?thesis by (simp add: pc)
  next
    case False
    with d have "video_privacyStatus d \<noteq> ''private''" by (simp add: private_candidate_def)
    with Cons.prems g rr have "filter_private items acc w1 = (Inr x, w')"
      by (simp add: Let_def)
    from Cons.IH [OF this] False show ?thesis by (simp add: pc)
  qed
qed

lemma distinct_map_mset:
  assumes "mset xs = mset ys"
  shows "distinct (map f xs) = distinct (map f ys)"
proof -
  from assms have "mset (map f xs) = mset (map f ys)" by simp
  then show ?thesis by (rule mset_eq_imp_distinct_iff)
qed

lemma distinct_zip_fst:
  assumes "distinct (map f xs)"
  shows "distinct (map (\<lambda>p. f (fst p)) (zip xs ys))"
proof -
  have "map (\<lambda>p. f (fst p)) (zip xs ys) = take (min (length xs) (length ys)) (map f xs)"
    by (simp add: take_map map_fst_zip_take [symmetric])
  with assms show ?thesis by simp
qed

lemma list_private_execute_ids:
  assumes "list_private_execute w = (Inr tp, w')" "uploads_distinct w"
  shows "distinct (map pv_id tp)"
proof -
  from assms(1) [unfolded list_private_execute_def] show ?thesis
  proof (cases rule: and_then_cases)
    case (2 u w1)
    from get_uploads_playlist_id_result [OF 2(1)] obtain us
      where cu: "channel_uploads w = u # us" and p1: "playlists w1 = playlists w"
      by (auto simp: only_reads_def)
    from 2(2) show ?thesis
    proof (cases rule: and_then_cases)
      case (2 items w2)
      from fetch_videos_result [OF 2(1)] p1 have it: "items = take 100 (playlists w u)"
        by auto
      from 2(2) show ?thesis
      proof (cases rule: and_then_cases)
        case (2 x w3)
        from 2(2) have tp: "tp = sort_private x" by simp
        from filter_private_ids [OF 2(1)]
        have "map pv_id x = map snippet_videoId (filter (private_candidate w2) items)" by simp
        moreover from assms(2) cu it have "distinct (map snippet_videoId items)"
          by (simp add: uploads_distinct_def listed_def)
        ultimately have "distinct (map pv_id x)" by (simp add: distinct_map_filter)
        moreover have "mset tp = mset x" by (simp add: tp sort_private_def)
        ultimately show ?thesis using distinct_map_mset [of tp x pv_id] by simp
      qed simp
    qed simp
  qed simp
qed

lemma add_public_shorts_effect:
  assumes "add_public_shorts_execute target w = (r, w')"
  shows "guarded target (listed w target) w w'
     \<and> (uploads_distinct w \<longrightarrow> (\<exists>cands. appended target (listed w target) cands w w'))"
proof -
  let ?ya = "listed w target"
  have reads_only: "guarded target ?ya w w'
     \<and> (uploads_distinct w \<longrightarrow> (\<exists>cands. appended target ?ya cands w w'))" if "only_reads w w'"
    using that guarded_reads [of w w' target ?ya] appended_reads [of w w' target ?ya] by blast
  from assms [unfolded add_public_shorts_execute_def] show ?thesis
  proof (cases rule: and_then_cases)
    case (1 e)
    from fetch_playlist_items_result [OF 1(1)] show ?thesis by (intro reads_only) simp
  next
    case (2 ya w1)
    from fetch_playlist_items_result [OF 2(1)] have r1: "only_reads w w1" and ya: "ya = ?ya"
      by (auto simp: listed_def)
    from 2(2) show ?thesis
    proof (cases rule: and_then_cases)
      case (1 e)
      from get_uploads_playlist_id_result [OF 1(1)] r1 show ?thesis
        by (intro reads_only) (blast intro: only_reads_trans)
    next
      case (2 u w2)
      from get_uploads_playlist_id_result [OF 2(1)] obtain us
        where r2: "only_reads w1 w2" and cu1: "channel_uploads w1 = u # us"
        by auto
      from r1 cu1 have cu: "channel_uploads w = u # us" by (simp add: only_reads_def)
      from r1 r2 have r12: "only_reads w w2" by (rule only_reads_trans)
      from 2(2) show ?thesis
      proof (cases rule: and_then_cases)
        case (1 e)
        from fetch_videos_result [OF 1(1)] r12 show ?thesis
          by (intro reads_only) (blast intro: only_reads_trans)
      next
        case (2 all_items w3)
        from fetch_videos_result [OF 2(1)] r12
        have r3: "only_reads w w3" and it: "all_items = take 100 (playlists w u)"
          by (auto intro: only_reads_trans simp: only_reads_def)
        from 2(2) show ?thesis
        proof (cases rule: and_then_cases)
          case (1 e)
          from select_shorts_reads [OF 1(1)] r3 show ?thesis
            by (intro reads_only) (blast intro: only_reads_trans)
        next
          case (2 sel w4)
          from select_shorts_reads [OF 2(1)] r3 have r4: "only_reads w w4"
            by (blast intro: only_reads_trans)
          let ?vids = "sort_shorts sel"
          obtain n where ins: "insert_new target ya ?vids 0 w4 = (n, w')"
            using 2(2) by (cases "insert_new target ya ?vids 0 w4") auto
          from guarded_reads [OF r4] insert_new_guarded [OF ins] ya
          have g: "guarded target ?ya w w'" by (blast intro: guarded_trans)
          have "\<exists>cands. appended target ?ya cands w w'" if ud: "uploads_distinct w"
          proof -
            from ud cu it have "distinct (map snippet_videoId all_items)"
              by (simp add: uploads_distinct_def listed_def)
            moreover from select_shorts_selects [OF 2(1)]
            have "map sv_id sel = map snippet_videoId (filter (short_candidate w3) all_items)"
              by (simp add: as_selected_def comp_def)
            ultimately have "distinct (map sv_id sel)" by (simp add: distinct_map_filter)
            moreover have "mset ?vids = mset sel" by (simp add: sort_shorts_def)
            ultimately have "distinct (map sv_id ?vids)"
              using distinct_map_mset [of ?vids sel sv_id] by simp
            from insert_new_appended [OF this ins] ya
            have "appended target ?ya (map sv_id ?vids) w4 w'" by simp
            from appended_trans [OF appended_reads [OF r4] this] show ?thesis by auto
          qed
          with g show ?thesis by blast
        qed
      qed
    qed
  qed
qed


lemma schedule_reads_result:
  assumes "schedule_reads target w = (r, w')"
  shows "only_reads w w' \<and> (\<forall>ya ref_map. r = Inr (ya, ref_map) \<longrightarrow> ya = listed w target)"
proof -
  from assms [unfolded schedule_reads_def] show ?thesis
  proof (cases rule: and_then_cases)
    case (1 e)
    from fetch_playlist_items_result [OF 1(1)] 1(2) show ?thesis by simp
  next
    case (2 ya w1)
    from fetch_playlist_items_result [OF 2(1)] have r1: "only_reads w w1" and ya: "ya = listed w target"
      by (auto simp: listed_def)
    from 2(2) show ?thesis
    proof (cases rule: and_then_cases)
      case (1 e)
      from get_uploads_playlist_id_result [OF 1(1)] r1 1(2) show ?thesis
        by (auto intro: only_reads_trans)
    next
      case (2 u w2)
      from get_uploads_playlist_id_result [OF 2(1)] r1 have r2: "only_reads w w2"
        by (auto intro: only_reads_trans)
      from 2(2) show ?thesis
      proof (cases rule: and_then_cases)
        case (1 e)
        from fetch_videos_result [OF 1(1)] r2 1(2) show ?thesis
          by (auto intro: only_reads_trans)
      next
        case (2 all_items w3)
        from fetch_videos_result [OF 2(1)] r2 have "only_reads w w3"
          by (auto intro: only_reads_trans)
        with 2(2) ya show ?thesis by auto
      qed
    qed
  qed
qed

lemma full_automation_effect:
  assumes "full_automation_execute target description clock w = Some (r, w')"
  shows "guarded target (listed w target) w w'
     \<and> (uploads_distinct w \<longrightarrow> (\<exists>cands. appended target (listed w target) cands w w'))"
proof -
  let ?ya = "listed w target"
  have reads_only: "guarded target ?ya w w'
     \<and> (uploads_distinct w \<longrightarrow> (\<exists>cands. appended target ?ya cands w w'))" if "only_reads w w'"
    using that guarded_reads [of w w' target ?ya] appended_reads [of w w' target ?ya] by blast
  obtain a w1 where lp: "list_private_execute w = (a, w1)"
    by (cases "list_private_execute w")
  note r1 = list_private_execute_reads [OF lp]
  show ?thesis
  proof (cases a)
    case (Inl e)
    with assms lp have "w' = w1" by (simp add: full_automation_execute_def)
    with r1 show ?thesis by (intro reads_only) simp
  next
    case (Inr tp)
    show ?thesis
    proof (cases "tp = []")
      case True
      with assms lp Inr have "w' = w1" by (simp add: full_automation_execute_def)
      with r1 show ?thesis by (intro reads_only) simp
    next
      case False
      obtain b w2 where sr: "schedule_reads target w1 = (b, w2)"
        by (cases "schedule_reads target w1")
      from schedule_reads_result [OF sr] r1 have r2: "only_reads w w2"
        by (auto intro: only_reads_trans)
      show ?thesis
      proof (cases b)
        case (Inl e)
        with assms lp sr \<open>a = Inr tp\<close> False have "w' = w2"
          by (simp add: full_automation_execute_def)
        with r2 show ?thesis by (intro reads_only) simp
      next
        case b: (Inr yr)
        obtain ya ref_map where yr: "yr = (ya, ref_map)" by (cases yr)
        from schedule_reads_result [OF sr] b yr r1 have ya: "ya = ?ya"
          by (simp add: listed_def only_reads_def)
        show ?thesis
        proof (cases "generate_schedule clock (int (length tp))")
          case None
          with assms lp sr \<open>a = Inr tp\<close> False b yr show ?thesis
            by (simp add: full_automation_execute_def)
        next
          case (Some g)
          show ?thesis
          proof (cases g)
            case (Inl e)
            with assms lp sr \<open>a = Inr tp\<close> False b yr Some have "w' = w2"
              by (simp add: full_automation_execute_def)
            with r2 show ?thesis by (intro reads_only) simp
          next
            case dates: (Inr dates)
            let ?pairs = "zip tp dates"
            from assms lp sr \<open>a = Inr tp\<close> False b yr Some dates
            have w': "w' = program_all target description ya ref_map ?pairs w2"
              by (simp add: full_automation_execute_def)
            from guarded_reads [OF r2] program_all_guarded [of target ya w2 description ref_map ?pairs]
            have g: "guarded target ?ya w w'"
              unfolding w' ya by (rule guarded_trans)
            have "\<exists>cands. appended target ?ya cands w w'" if ud: "uploads_distinct w"
            proof -
              from list_private_execute_ids [OF lp [unfolded \<open>a = Inr tp\<close>] ud]
              have "distinct (map (\<lambda>p. pv_id (fst p)) ?pairs)" by (rule distinct_zip_fst)
              from program_all_appended [OF this, of target ya w2 description ref_map]
              have "appended target ?ya (map (\<lambda>p. pv_id (fst p)) ?pairs) w2 w'"
                by (simp add: w' ya)
              from appended_trans [OF appended_reads [OF r2] this] show ?thesis by auto
            qed
            with g show ?thesis by blast
          qed
        qed
      qed
    qed
  qed
qed


lemma task_run_effect:
  assumes "task_run target w w'"
  shows "guarded target (listed w target) w w'
     \<and> (uploads_distinct w \<longrightarrow> (\<exists>cands. appended target (listed w target) cands w w'))"
  using assms add_public_shorts_effect full_automation_effect
  unfolding task_run_def by blast

lemma task_run_keeps_ready:
  assumes run: "task_run target w w'" and ready: "dedup_ready w target"
  shows "no_duplicates w' target \<and> uploads_distinct w'"
proof -
  from ready have lc: "listing_complete w target" and nd: "no_duplicates w target"
    and ud: "uploads_distinct w"
    by (simp_all add: dedup_ready_def)
  from task_run_effect [OF run] ud obtain cands
    where a: "appended target (listed w target) cands w w'" by blast
  from appended_distinct [OF a lc nd] have nd': "no_duplicates w' target" .
  from a have cu: "channel_uploads w' = channel_uploads w" by (simp add: appended_def)
  have "uploads_distinct w'"
  proof (cases "channel_uploads w")
    case Nil
    with cu show ?thesis by (simp add: uploads_distinct_def)
  next
    case (Cons u us)
    show ?thesis
    proof (cases "u = target")
      case True
      from nd' have "distinct (take 100 (members w' target))"
        by (simp add: no_duplicates_def)
      then have "distinct (listed w' target)"
        by (simp add: listed_def members_def take_map)
      with cu Cons True show ?thesis by (simp add: uploads_distinct_def)
    next
      case False
      from appended_other [OF a False] ud cu Cons show ?thesis
        by (simp add: uploads_distinct_def listed_def)
    qed
  qed
  with nd' show ?thesis ..
qed

text \<open>
  What the check against the listing achieves. In a run of the scheduling task or of the
  public-shorts task, every insertion is into the target playlist and for a video that
  is not among the first 100 rows listed at the start of the run. If moreover the
  playlist has at most 100 rows and no duplicates, and the listed uploads name different
  videos, then the playlist has no duplicates after the run, and after one more run as
  long as it still has at most 100 rows.
\<close>

lemma dedup_against_listing:
  "task_run target w w' \<longrightarrow>
     inserts_only_absent target w w'
     \<and> (dedup_ready w target \<longrightarrow>
          no_duplicates w' target
          \<and> (\<forall>w''. listing_complete w' target \<and> task_run target w' w'' \<longrightarrow>
                no_duplicates w'' target))"
proof
  assume run: "task_run target w w'"
  from task_run_effect [OF run] have g: "inserts_only_absent target w w'"
    by (simp add: inserts_only_absent_def)
  have "no_duplicates w' target
          \<and> (\<forall>w''. listing_complete w' target \<and> task_run target w' w'' \<longrightarrow>
                no_duplicates w'' target)" if ready: "dedup_ready w target"
  proof -
    from task_run_keeps_ready [OF run ready]
    have nd: "no_duplicates w' target" and ud: "uploads_distinct w'" by simp_all
    have "no_duplicates w'' target" if "listing_complete w' target" "task_run target w' w''" for w''
    proof -
      from that(1) nd ud have "dedup_ready w' target" by (simp add: dedup_ready_def)
      from task_run_keeps_ready [OF that(2) this] show ?thesis ..
    qed
    with nd show ?thesis by blast
  qed
  with g show "inserts_only_absent target w w'
     \<and> (dedup_ready w target \<longrightarrow>
          no_duplicates w' target
          \<and> (\<forall>w''. listing_complete w' target \<and> task_run target w' w'' \<longrightarrow>
                no_duplicates w'' target))"
    by blast
qed

text \<open>
  Claim C3, on the code. The playlist has 101 rows and no duplicates; the short \<open>b\<close> is
  a member at row 101. The listing shows the first 100 rows, so the run of the
  public-shorts task sends an insertion for \<open>b\<close>, and \<open>b\<close> has two rows afterwards.
\<close>

theorem dedup_misses_row_beyond_listing:
  "length (playlists crowded_remote ''PL'') = 101
   \<and> no_duplicates crowded_remote ''PL'' \<and> uploads_distinct crowded_remote
   \<and> ''b'' \<in> set (members crowded_remote ''PL'')
   \<and> PlaylistItemsInsert ''PL'' ''b''
       \<in> set (issued (snd (add_public_shorts_execute ''PL'' crowded_remote)))
   \<and> \<not> no_duplicates (snd (add_public_shorts_execute ''PL'' crowded_remote)) ''PL''"
proof -
  have 0: "length (playlists crowded_remote ''PL'') = 101"
    by (simp add: crowded_remote_def)
  have 1: "no_duplicates crowded_remote ''PL''" by code_simp
  have 2: "uploads_distinct crowded_remote" by code_simp
  have 3: "''b'' \<in> set (members crowded_remote ''PL'')" by code_simp
  have 5: "PlaylistItemsInsert ''PL'' ''b''
       \<in> set (issued (snd (add_public_shorts_execute ''PL'' crowded_remote)))"
    by code_simp
  have 6: "\<not> no_duplicates (snd (add_public_shorts_execute ''PL'' crowded_remote)) ''PL''"
    by code_simp
  from 0 1 2 3 5 6 show ?thesis by blast
qed

section \<open>Properties of the listings\<close>

lemma keeps_prefix_prefix_only: "keeps_prefix m \<Longrightarrow> prefix_only m"
  by (auto simp: keeps_prefix_def prefix_only_def same_prefix_def)

lemma keeps_prefixD:
  "keeps_prefix m \<Longrightarrow> same_prefix w v \<Longrightarrow> fst (m w) = fst (m v) \<and> same_prefix (snd (m w)) (snd (m v))"
  by (simp add: keeps_prefix_def)

lemma keeps_prefix_and_then:
  assumes "keeps_prefix m" "\<And>x. keeps_prefix (f x)"
  shows "keeps_prefix (and_then m f)"
  unfolding keeps_prefix_def
proof (intro allI impI)
  fix w v assume s: "same_prefix w v"
  obtain a w1 where mw: "m w = (a, w1)" by (cases "m w")
  obtain b v1 where mv: "m v = (b, v1)" by (cases "m v")
  from keeps_prefixD [OF assms(1) s] mw mv have ab: "a = b" and s1: "same_prefix w1 v1" by simp_all
  show "fst (and_then m f w) = fst (and_then m f v)
      \<and> same_prefix (snd (and_then m f w)) (snd (and_then m f v))"
  proof (cases a)
    case (Inl e)
    with mw mv ab s1 show ?thesis by (auto simp: and_then_def)
  next
    case (Inr x)
    with mw mv ab keeps_prefixD [OF assms(2) s1, of x] show ?thesis by (auto simp: and_then_def)
  qed
qed

lemma keeps_prefix_send: "keeps_prefix (send c)"
  by (auto simp: keeps_prefix_def same_prefix_def send_def Let_def)

lemma take_take_100: "n \<le> 100 \<Longrightarrow> take n xs = take n (take 100 xs)"
  by (simp add: min_def)

lemma keeps_prefix_playlistItems_list: "keeps_prefix (playlistItems_list p 100)"
  unfolding playlistItems_list_def
  by (intro keeps_prefix_and_then keeps_prefix_send) (auto simp: keeps_prefix_def same_prefix_def)

lemma keeps_prefix_fetch_videos: "keeps_prefix (fetch_videos p)"
  by (simp add: fetch_videos_def keeps_prefix_playlistItems_list)

lemma keeps_prefix_fetch_playlist_items: "keeps_prefix (fetch_playlist_items p)"
  unfolding fetch_playlist_items_def
  by (intro keeps_prefix_and_then keeps_prefix_playlistItems_list) (auto simp: keeps_prefix_def)

lemma keeps_prefix_get_uploads: "keeps_prefix get_uploads_playlist_id"
  unfolding get_uploads_playlist_id_def
  by (intro keeps_prefix_and_then keeps_prefix_send)
     (auto simp: keeps_prefix_def same_prefix_def split: list.splits)

lemma keeps_prefix_get_full_video_data: "keeps_prefix (get_full_video_data x)"
  unfolding get_full_video_data_def videos_list_def
  by (intro keeps_prefix_and_then keeps_prefix_send)
     (auto simp: keeps_prefix_def same_prefix_def split: list.splits)

lemma keeps_prefix_update: "keeps_prefix (update_video_content b)"
  unfolding update_video_content_def videos_update_req_def
  by (intro keeps_prefix_and_then keeps_prefix_send)
     (auto simp: keeps_prefix_def same_prefix_def split: option.splits)

lemma take_snoc_same:
  assumes "take 100 xs = take 100 ys"
  shows "take 100 (xs @ [r]) = take 100 (ys @ [r])"
proof (cases "length xs < 100")
  case True
  from assms have "length (take 100 xs) = length (take 100 ys)" by simp
  with True have "length ys < 100" by simp
  with True assms show ?thesis by simp
next
  case False
  from assms have "length (take 100 xs) = length (take 100 ys)" by simp
  with False have "\<not> length ys < 100" by simp
  with False assms show ?thesis by simp
qed

lemma keeps_prefix_insert_row:
  "keeps_prefix (\<lambda>w. case videos w x of
       None \<Rightarrow> (Inl HttpError, w)
     | Some d \<Rightarrow>
         (Inr (),
          w\<lparr>playlists := (playlists w)
               (target := playlists w target @
                  [\<lparr>item_id = next_item_id w, snippet_title = video_title d,
                    snippet_videoId = x\<rparr>]),
            next_item_id := Suc (next_item_id w)\<rparr>))"
  unfolding keeps_prefix_def
proof (intro allI impI)
  fix w v assume s: "same_prefix w v"
  then have e: "channel_uploads w = channel_uploads v" "videos w = videos v" "refuses w = refuses v"
    "issued w = issued v" "next_item_id w = next_item_id v"
    and t: "\<And>p. take 100 (playlists w p) = take 100 (playlists v p)"
    by (simp_all add: same_prefix_def)
  let ?m = "\<lambda>w. case videos w x of
       None \<Rightarrow> (Inl HttpError, w)
     | Some d \<Rightarrow>
         (Inr (),
          w\<lparr>playlists := (playlists w)
               (target := playlists w target @
                  [\<lparr>item_id = next_item_id w, snippet_title = video_title d,
                    snippet_videoId = x\<rparr>]),
            next_item_id := Suc (next_item_id w)\<rparr>)"
  show "fst (?m w) = fst (?m v) \<and> same_prefix (snd (?m w)) (snd (?m v))"
  proof (cases "videos v x")
    case None
    with e s show ?thesis by simp
  next
    case (Some d)
    let ?row = "\<lparr>item_id = next_item_id v, snippet_title = video_title d, snippet_videoId = x\<rparr>"
    have "take 100 (((playlists w)(target := playlists w target @ [?row])) p)
        = take 100 (((playlists v)(target := playlists v target @ [?row])) p)" for p
    proof (cases "p = target")
      case True
      from take_snoc_same [OF t [of target], of ?row] True show ?thesis
        by (metis fun_upd_same)
    next
      case False
      with t [of p] show ?thesis by (metis fun_upd_other)
    qed
    with Some e show ?thesis by (simp add: same_prefix_def del: take_append)
  qed
qed

lemma keeps_prefix_add_to_playlist: "keeps_prefix (add_to_playlist x target)"
  unfolding add_to_playlist_def playlistItems_insert_def
  by (intro keeps_prefix_and_then keeps_prefix_send keeps_prefix_insert_row)


lemma keeps_prefix_const: "keeps_prefix (\<lambda>w. (r, w))"
  by (simp add: keeps_prefix_def)

lemma filter_private_step:
  "filter_private (item # items) acc =
     and_then (get_full_video_data (snippet_videoId item))
       (\<lambda>d. case d of
              None \<Rightarrow> (\<lambda>w. (Inl TypeError, w))
            | Some details \<Rightarrow>
                if video_privacyStatus details = ''private''
                then filter_private items
                       (acc @ [\<lparr>pv_title = video_title details, pv_id = snippet_videoId item,
                                pv_details = details\<rparr>])
                else filter_private items acc)"
  by (rule ext) (simp add: and_then_def Let_def split: prod.splits sum.splits option.splits)

lemma keeps_prefix_filter_private: "keeps_prefix (filter_private items acc)"
proof (induction items arbitrary: acc)
  case Nil
  have "filter_private [] acc = (\<lambda>w. (Inr acc, w))" by (rule ext) simp
  then show ?case by (simp only: keeps_prefix_const)
next
  case (Cons item items)
  show ?case
    unfolding filter_private_step
    by (intro keeps_prefix_and_then keeps_prefix_get_full_video_data)
       (auto split: option.splits intro: keeps_prefix_const Cons.IH)
qed

lemma select_shorts_step:
  "select_shorts (item # items) acc =
     and_then (get_full_video_data (snippet_videoId item))
       (\<lambda>d. case d of
              None \<Rightarrow> (\<lambda>w. (Inl TypeError, w))
            | Some details \<Rightarrow>
                if video_privacyStatus details \<noteq> ''public''
                then select_shorts items acc
                else if check_duration (case video_duration details of None \<Rightarrow> [] | Some d \<Rightarrow> d) 120
                then select_shorts items
                       (acc @ [\<lparr>sv_title = snippet_title item, sv_id = snippet_videoId item\<rparr>])
                else select_shorts items acc)"
  by (rule ext) (simp add: and_then_def Let_def split: prod.splits sum.splits option.splits)

lemma keeps_prefix_select_shorts: "keeps_prefix (select_shorts items acc)"
proof (induction items arbitrary: acc)
  case Nil
  have "select_shorts [] acc = (\<lambda>w. (Inr acc, w))" by (rule ext) simp
  then show ?case by (simp only: keeps_prefix_const)
next
  case (Cons item items)
  show ?case
    unfolding select_shorts_step
    by (intro keeps_prefix_and_then keeps_prefix_get_full_video_data)
       (auto split: option.splits intro: keeps_prefix_const Cons.IH)
qed

lemma keeps_prefix_list_private: "keeps_prefix list_private_execute"
  unfolding list_private_execute_def
  by (intro keeps_prefix_and_then keeps_prefix_get_uploads keeps_prefix_fetch_videos
      keeps_prefix_filter_private keeps_prefix_const)

lemma insert_new_same_prefix:
  "same_prefix w v \<Longrightarrow>
   fst (insert_new target ya vids n w) = fst (insert_new target ya vids n v)
   \<and> same_prefix (snd (insert_new target ya vids n w)) (snd (insert_new target ya vids n v))"
proof (induction vids arbitrary: n w v)
  case Nil
  then show ?case by simp
next
  case (Cons vid vids)
  show ?case
  proof (cases "sv_id vid \<in> set ya")
    case True
    with Cons.IH [OF Cons.prems] show ?thesis by simp
  next
    case False
    obtain a w1 where aw: "add_to_playlist (sv_id vid) target w = (a, w1)"
      by (cases "add_to_playlist (sv_id vid) target w")
    obtain b v1 where bv: "add_to_playlist (sv_id vid) target v = (b, v1)"
      by (cases "add_to_playlist (sv_id vid) target v")
    from keeps_prefixD [OF keeps_prefix_add_to_playlist Cons.prems, of "sv_id vid" target] aw bv
    have ab: "a = b" and s1: "same_prefix w1 v1" by simp_all
    from False aw bv ab Cons.IH [OF s1] show ?thesis
      by (cases b) simp_all
  qed
qed

lemma keeps_prefix_add_public_shorts: "keeps_prefix (add_public_shorts_execute target)"
  unfolding add_public_shorts_execute_def
  by (intro keeps_prefix_and_then keeps_prefix_fetch_playlist_items keeps_prefix_get_uploads
      keeps_prefix_fetch_videos keeps_prefix_select_shorts)
     (simp add: keeps_prefix_def insert_new_same_prefix)


lemma program_video_same_prefix:
  assumes "same_prefix w v"
  shows "same_prefix (program_video target description ya ref_map pair w)
           (program_video target description ya ref_map pair v)"
proof -
  let ?b = "make_body description ref_map (fst pair) (snd pair)"
  obtain a w1 where aw: "update_video_content ?b w = (a, w1)"
    by (cases "update_video_content ?b w")
  obtain b v1 where bv: "update_video_content ?b v = (b, v1)"
    by (cases "update_video_content ?b v")
  from keeps_prefixD [OF keeps_prefix_update assms, of ?b] aw bv
  have ab: "a = b" and s1: "same_prefix w1 v1" by simp_all
  from keeps_prefixD [OF keeps_prefix_add_to_playlist s1, of "pv_id (fst pair)" target]
  have "same_prefix (snd (add_to_playlist (pv_id (fst pair)) target w1))
          (snd (add_to_playlist (pv_id (fst pair)) target v1))" ..
  with aw bv ab s1 show ?thesis
    by (cases b) (simp_all add: program_video_def Let_def)
qed

lemma program_all_same_prefix:
  "same_prefix w v \<Longrightarrow>
   same_prefix (program_all target description ya ref_map pairs w)
     (program_all target description ya ref_map pairs v)"
  by (induction pairs arbitrary: w v) (simp_all add: program_video_same_prefix)

lemma keeps_prefix_schedule_reads: "keeps_prefix (schedule_reads target)"
  unfolding schedule_reads_def
  by (intro keeps_prefix_and_then keeps_prefix_fetch_playlist_items keeps_prefix_get_uploads
      keeps_prefix_fetch_videos keeps_prefix_const)

lemma full_automation_same_prefix:
  assumes "same_prefix w v"
  shows "map_option fst (full_automation_execute target description clock w)
         = map_option fst (full_automation_execute target description clock v)
     \<and> map_option (\<lambda>x. issued (snd x)) (full_automation_execute target description clock w)
         = map_option (\<lambda>x. issued (snd x)) (full_automation_execute target description clock v)"
proof -
  obtain a w1 where aw: "list_private_execute w = (a, w1)" by (cases "list_private_execute w")
  obtain b v1 where bv: "list_private_execute v = (b, v1)" by (cases "list_private_execute v")
  from keeps_prefixD [OF keeps_prefix_list_private assms] aw bv
  have ab: "a = b" and s1: "same_prefix w1 v1" by simp_all
  then have i1: "issued w1 = issued v1" by (simp add: same_prefix_def)
  show ?thesis
  proof (cases b)
    case (Inl e)
    with aw bv ab i1 show ?thesis by (simp add: full_automation_execute_def)
  next
    case (Inr tp)
    obtain c w2 where cw: "schedule_reads target w1 = (c, w2)" by (cases "schedule_reads target w1")
    obtain d v2 where dv: "schedule_reads target v1 = (d, v2)" by (cases "schedule_reads target v1")
    from keeps_prefixD [OF keeps_prefix_schedule_reads s1, of target] cw dv
    have cd: "c = d" and s2: "same_prefix w2 v2" by simp_all
    then have i2: "issued w2 = issued v2" by (simp add: same_prefix_def)
    have i3: "issued (program_all target description ya ref_map pairs w2)
            = issued (program_all target description ya ref_map pairs v2)" for ya ref_map pairs
      using program_all_same_prefix [OF s2, of target description ya ref_map pairs]
      by (simp add: same_prefix_def)
    from aw bv ab Inr cw dv cd i1 i2 i3 show ?thesis
      by (auto simp: full_automation_execute_def split: sum.splits option.splits prod.splits)
  qed
qed

lemma delete_all_same_requests:
  "same_requests w v \<Longrightarrow> same_requests (delete_all items w) (delete_all items v)"
proof (induction items arbitrary: w v)
  case Nil
  then show ?case by simp
next
  case (Cons item items)
  from Cons.prems
  have "same_requests (snd (playlistItems_delete (item_id item) w))
          (snd (playlistItems_delete (item_id item) v))"
    by (auto simp: same_requests_def playlistItems_delete_def and_then_def send_def Let_def)
  from Cons.IH [OF this] show ?case by simp
qed

lemma prefix_only_clear: "prefix_only (clear_playlist_execute p)"
  unfolding prefix_only_def
proof (intro allI impI)
  fix w v assume s: "same_prefix w v"
  obtain a w1 where aw: "playlistItems_list p 100 w = (a, w1)"
    by (cases "playlistItems_list p 100 w")
  obtain b v1 where bv: "playlistItems_list p 100 v = (b, v1)"
    by (cases "playlistItems_list p 100 v")
  from keeps_prefixD [OF keeps_prefix_playlistItems_list s, of p] aw bv
  have ab: "a = b" and s1: "same_prefix w1 v1" by simp_all
  then have r1: "same_requests w1 v1" by (simp add: same_prefix_def same_requests_def)
  from delete_all_same_requests [OF r1] have "issued (delete_all items w1) = issued (delete_all items v1)"
    for items by (simp add: same_requests_def)
  with aw bv ab r1 show "fst (clear_playlist_execute p w) = fst (clear_playlist_execute p v)
      \<and> issued (snd (clear_playlist_execute p w)) = issued (snd (clear_playlist_execute p v))"
    by (cases b) (auto simp: clear_playlist_execute_def and_then_def same_requests_def)
qed

lemma delete_all_issued:
  "issued (delete_all items w)
     = issued w @ map (\<lambda>item. PlaylistItemsDelete (item_id item)) items"
proof (induction items arbitrary: w)
  case Nil
  then show ?case by simp
next
  case (Cons item items)
  have "issued (snd (playlistItems_delete (item_id item) w))
        = issued w @ [PlaylistItemsDelete (item_id item)]"
    by (auto simp: playlistItems_delete_def and_then_def send_def Let_def)
  with Cons.IH [of "snd (playlistItems_delete (item_id item) w)"] show ?case by simp
qed


lemma clear_playlist_issued:
  assumes "clear_playlist_execute p w = (Inr u, w')"
  shows "issued w' = issued w @ PlaylistItemsList p 100
           # map (\<lambda>item. PlaylistItemsDelete (item_id item)) (take 100 (playlists w p))"
proof -
  from assms [unfolded clear_playlist_execute_def] show ?thesis
  proof (cases rule: and_then_cases)
    case (2 items w1)
    from playlistItems_list_result [OF 2(1)]
    have i: "issued w1 = issued w @ [PlaylistItemsList p 100]"
      and it: "items = take 100 (playlists w p)"
      by auto
    from 2(2) have "w' = delete_all items w1" by (cases "items = []") auto
    with i it show ?thesis by (simp add: delete_all_issued)
  qed simp
qed

text \<open>
  Claim C8. Each listing sends one request, for at most 100 rows, and returns the first
  100 rows of the playlist at most: the uploads, the members for the check against
  duplicates, and the rows that the clearing task deletes. The tasks depend on the
  playlists through these rows only: from two states that differ beyond the first 100
  rows, each task returns the same result and sends the same requests.
\<close>

theorem listings_first_page:
  "(fetch_videos p w = (Inr items, w') \<longrightarrow>
      items = take 100 (playlists w p) \<and> length items \<le> 100
      \<and> issued w' = issued w @ [PlaylistItemsList p 100])
   \<and> (fetch_playlist_items p w = (Inr ids, w') \<longrightarrow>
        ids = listed w p \<and> length ids \<le> 100
        \<and> issued w' = issued w @ [PlaylistItemsList p 100])
   \<and> (clear_playlist_execute p w = (Inr u, w') \<longrightarrow>
        issued w' = issued w @ PlaylistItemsList p 100
          # map (\<lambda>item. PlaylistItemsDelete (item_id item)) (take 100 (playlists w p)))
   \<and> prefix_only list_private_execute
   \<and> prefix_only (add_public_shorts_execute target)
   \<and> prefix_only (clear_playlist_execute p)
   \<and> (same_prefix w v \<longrightarrow>
        map_option fst (full_automation_execute target description clock w)
          = map_option fst (full_automation_execute target description clock v)
        \<and> map_option (\<lambda>x. issued (snd x)) (full_automation_execute target description clock w)
          = map_option (\<lambda>x. issued (snd x)) (full_automation_execute target description clock v))"
proof -
  have a: "items = take 100 (playlists w p) \<and> length items \<le> 100
      \<and> issued w' = issued w @ [PlaylistItemsList p 100]"
    if "fetch_videos p w = (Inr items, w')"
    using fetch_videos_result [OF that] by auto
  have b: "ids = listed w p \<and> length ids \<le> 100
        \<and> issued w' = issued w @ [PlaylistItemsList p 100]"
    if "fetch_playlist_items p w = (Inr ids, w')"
    using fetch_playlist_items_result [OF that] by (auto simp: listed_def)
  note c = clear_playlist_issued [of p w u w']
  note d = keeps_prefix_prefix_only [OF keeps_prefix_list_private]
    keeps_prefix_prefix_only [OF keeps_prefix_add_public_shorts, of target]
    prefix_only_clear [of p]
  note e = full_automation_same_prefix [of w v target description clock]
  from a b c d e show ?thesis by blast
qed

theorem listings_first_page_witness:
  "same_prefix crowded_remote trimmed_remote
   \<and> length (playlists crowded_remote ''PL'') = 101
   \<and> fetch_playlist_items ''PL'' crowded_remote
       = (Inr (listed crowded_remote ''PL''), snd (fetch_playlist_items ''PL'' crowded_remote))
   \<and> length (listed crowded_remote ''PL'') \<le> 100
   \<and> issued (snd (fetch_playlist_items ''PL'' crowded_remote)) = [PlaylistItemsList ''PL'' 100]
   \<and> fst (add_public_shorts_execute ''PL'' crowded_remote)
       = fst (add_public_shorts_execute ''PL'' trimmed_remote)
   \<and> issued (snd (add_public_shorts_execute ''PL'' crowded_remote))
       = issued (snd (add_public_shorts_execute ''PL'' trimmed_remote))"
proof -
  have s: "same_prefix crowded_remote trimmed_remote"
    by (simp add: same_prefix_def trimmed_remote_def)
  have l: "length (playlists crowded_remote ''PL'') = 101"
    by (simp add: crowded_remote_def)
  have f: "fetch_playlist_items ''PL'' crowded_remote
       = (Inr (listed crowded_remote ''PL''), snd (fetch_playlist_items ''PL'' crowded_remote))"
    by (simp add: fetch_playlist_items_def playlistItems_list_def and_then_def send_def
        listed_def crowded_remote_def sample_remote_def)
  have i: "issued crowded_remote = []"
    by (simp add: crowded_remote_def sample_remote_def)
  note t = listings_first_page [of "''PL''" crowded_remote "[]" "snd (fetch_playlist_items ''PL'' crowded_remote)"
      "listed crowded_remote ''PL''" "()" "''PL''" trimmed_remote "[]" "\<lambda>n. wednesday_night"]
  from t f i have 1: "length (listed crowded_remote ''PL'') \<le> 100"
    and 2: "issued (snd (fetch_playlist_items ''PL'' crowded_remote)) = [PlaylistItemsList ''PL'' 100]"
    by simp_all
  from t have "prefix_only (add_public_shorts_execute ''PL'')" by blast
  with s have 3: "fst (add_public_shorts_execute ''PL'' crowded_remote)
       = fst (add_public_shorts_execute ''PL'' trimmed_remote)"
    and 4: "issued (snd (add_public_shorts_execute ''PL'' crowded_remote))
       = issued (snd (add_public_shorts_execute ''PL'' trimmed_remote))"
    by (simp_all add: prefix_only_def)
  from s l f 1 2 3 4 show ?thesis by blast
qed

end
